theory Spec2Isabelle
  imports Main
begin

section \<open>The build script \<^verbatim>\<open>setup.py\<close> of flute\<close>

text \<open>
  The script is glue around library calls: it reads files, runs \<^verbatim>\<open>nvcc -V\<close>, globs a
  directory and hands the results to \<^verbatim>\<open>setuptools.setup\<close>. The embedding makes the
  outside world a record of functions (\<open>world\<close>), every exception a value of \<open>error\<close>,
  and every action on the outside world an \<open>event\<close> of a trace, so that "fails before
  globbing" is a statement about the trace.

  Python \<^verbatim>\<open>str\<close> values are modelled as \<open>string\<close>, one \<open>char\<close> per code point; the model
  therefore covers texts whose code points are below 256.
\<close>

subsection \<open>Errors, events and the outside world\<close>

datatype error =
    AssertionError
  | RuntimeError
  | ValueError
  | IndexError
  | TypeError
  | InvalidVersion
  | OSError
  | AttributeError
  | RecursionError
  | CalledProcessError

datatype event =
    Subprocess "string list"
  | OpenRead string
  | Glob string
  | FindPackages
  | Setup

text \<open>
  \<open>CUDA_HOME\<close> is \<^verbatim>\<open>torch.utils.cpp_extension.CUDA_HOME\<close> (\<open>None\<close> when unset);
  \<open>check_output argv\<close> is what \<^verbatim>\<open>subprocess.check_output(argv, universal_newlines=True)\<close>
  returns or raises; \<open>read_text path\<close> is what \<^verbatim>\<open>open(path).read()\<close> returns or raises;
  \<open>listdir dir\<close> is the directory listing that \<^verbatim>\<open>glob\<close> scans (\<open>None\<close> when the
  directory cannot be listed); \<open>torch_version\<close> is \<^verbatim>\<open>torch.__version__\<close>; \<open>script_file\<close>
  is \<^verbatim>\<open>__file__\<close>; \<open>packages\<close> is the result of \<^verbatim>\<open>find_packages()\<close>;
  \<open>recursion_frames\<close> is the number of nested calls of \<^verbatim>\<open>_read_requirements\<close> for which the
  interpreter's recursion limit leaves room where \<^verbatim>\<open>get_requirements\<close> is called (somewhat
  below \<^verbatim>\<open>sys.getrecursionlimit()\<close>, which is 1000 unless changed).
\<close>

record world =
  CUDA_HOME :: "string option"
  check_output :: "string list \<Rightarrow> error + string"
  read_text :: "string \<Rightarrow> error + string"
  listdir :: "string \<Rightarrow> string list option"
  torch_version :: string
  script_file :: string
  packages :: "string list"
  recursion_frames :: nat

text \<open>A computation yields the events it performed and then a value or an exception.\<close>

type_synonym 'a eff = "event list \<times> (error + 'a)"

definition ret :: "'a \<Rightarrow> 'a eff" where
  "ret x = ([], Inr x)"

definition raise :: "error \<Rightarrow> 'a eff" where
  "raise e = ([], Inl e)"

definition eff_bind :: "'a eff \<Rightarrow> ('a \<Rightarrow> 'b eff) \<Rightarrow> 'b eff" where
  "eff_bind m f =
     (case m of
        (t, Inl e) \<Rightarrow> (t, Inl e)
      | (t, Inr x) \<Rightarrow> (case f x of (t', r) \<Rightarrow> (t @ t', r)))"

definition open_read :: "world \<Rightarrow> string \<Rightarrow> string eff" where
  "open_read w path = ([OpenRead path], read_text w path)"

subsection \<open>Python string operations\<close>

definition newline :: char where
  "newline = CHR 0x0A"

text \<open>\<^verbatim>\<open>str.isspace\<close> on one code point below 256: 9-13, 28-32, 133 and 160.\<close>

definition isspace :: "char \<Rightarrow> bool" where
  "isspace c =
     (let n = (of_char c :: nat)
      in (9 \<le> n \<and> n \<le> 13) \<or> (28 \<le> n \<and> n \<le> 32) \<or> n = 133 \<or> n = 160)"

text \<open>\<^verbatim>\<open>s.strip()\<close>\<close>

definition strip :: "string \<Rightarrow> string" where
  "strip s = rev (dropWhile isspace (rev (dropWhile isspace s)))"

text \<open>
  Splitting at every character that satisfies \<open>P\<close>; the result is never empty.
  \<open>split_sep\<close> is \<^verbatim>\<open>s.split(sep)\<close> for a separator of one character.
\<close>

primrec split_where :: "(char \<Rightarrow> bool) \<Rightarrow> string \<Rightarrow> string list" where
  "split_where P [] = [[]]"
| "split_where P (c # cs) =
     (if P c then [] # split_where P cs
      else (case split_where P cs of
              [] \<Rightarrow> [[c]]
            | x # xs \<Rightarrow> (c # x) # xs))"

definition split_sep :: "char \<Rightarrow> string \<Rightarrow> string list" where
  "split_sep sep s = split_where (\<lambda>c. c = sep) s"

text \<open>\<^verbatim>\<open>sep.join(xs)\<close>\<close>

primrec join :: "string \<Rightarrow> string list \<Rightarrow> string" where
  "join sep [] = []"
| "join sep (x # xs) = (if xs = [] then x else x @ sep @ join sep xs)"

text \<open>
  \<^verbatim>\<open>s.split()\<close>: the maximal runs of non-whitespace characters. \<open>cur\<close> is the token
  being read.
\<close>

primrec split_ws_from :: "string \<Rightarrow> string \<Rightarrow> string list" where
  "split_ws_from cur [] = (if cur = [] then [] else [cur])"
| "split_ws_from cur (c # cs) =
     (if isspace c then (if cur = [] then split_ws_from [] cs else cur # split_ws_from [] cs)
      else split_ws_from (cur @ [c]) cs)"

definition split_ws :: "string \<Rightarrow> string list" where
  "split_ws s = split_ws_from [] s"

text \<open>\<^verbatim>\<open>s.startswith(p)\<close>\<close>

definition startswith :: "string \<Rightarrow> string \<Rightarrow> bool" where
  "startswith s p = (take (length p) s = p)"

text \<open>\<^verbatim>\<open>s.endswith(p)\<close>\<close>

definition endswith :: "string \<Rightarrow> string \<Rightarrow> bool" where
  "endswith s p = (length p \<le> length s \<and> drop (length s - length p) s = p)"

text \<open>\<^verbatim>\<open>s.replace(old, new)\<close> for \<open>old\<close> of one character.\<close>

definition replace :: "char \<Rightarrow> string \<Rightarrow> string \<Rightarrow> string" where
  "replace old new s = concat (map (\<lambda>c. if c = old then new else [c]) s)"

text \<open>\<^verbatim>\<open>xs.index(x)\<close>: the first position of \<open>x\<close>, \<^verbatim>\<open>ValueError\<close> when there is none.\<close>

primrec index :: "'a list \<Rightarrow> 'a \<Rightarrow> nat option" where
  "index [] x = None"
| "index (y # ys) x = (if y = x then Some 0 else map_option Suc (index ys x))"

text \<open>\<^verbatim>\<open>xs[i]\<close> for \<open>i \<ge> 0\<close>: \<^verbatim>\<open>IndexError\<close> out of range.\<close>

definition item :: "'a list \<Rightarrow> nat \<Rightarrow> 'a option" where
  "item xs i = (if i < length xs then Some (xs ! i) else None)"

text \<open>\<^verbatim>\<open>str(n)\<close> for an integer \<open>n \<ge> 0\<close>.\<close>

definition digit_char :: "nat \<Rightarrow> char" where
  "digit_char d = ''0123456789'' ! d"

function str_nat :: "nat \<Rightarrow> string" where
  "str_nat n = (if n < 10 then [digit_char n] else str_nat (n div 10) @ [digit_char (n mod 10)])"
  by pat_completeness auto
termination
  by (relation "measure id") auto

text \<open>\<^verbatim>\<open>int(s)\<close> for \<open>s\<close> a non-empty string of ASCII digits.\<close>

definition isdigit :: "char \<Rightarrow> bool" where
  "isdigit c = (c \<in> set ''0123456789'')"

definition digit_val :: "char \<Rightarrow> nat" where
  "digit_val c = of_char c - 48"

definition int_of_digits :: "string \<Rightarrow> nat" where
  "int_of_digits s = foldl (\<lambda>a c. 10 * a + digit_val c) 0 s"

text \<open>\<^verbatim>\<open>s.lower()\<close> on ASCII letters.\<close>

definition lower_char :: "char \<Rightarrow> char" where
  "lower_char c =
     (let n = (of_char c :: nat) in if 65 \<le> n \<and> n \<le> 90 then char_of (n + 32) else c)"

definition lower :: "string \<Rightarrow> string" where
  "lower s = map lower_char s"

subsection \<open>Regular expressions as \<^verbatim>\<open>re\<close> matches them\<close>

text \<open>
  A pattern is a value of \<open>regex\<close>; \<open>rmatch r st\<close> lists the states in which a match of
  \<open>r\<close> begun in state \<open>st\<close> can end, in the order in which Python's backtracking matcher
  tries them (first alternative first, longest repetition first). The flags are part of
  the pattern: \<open>Bol\<close> is \<^verbatim>\<open>^\<close> under \<^verbatim>\<open>re.M\<close>, \<open>Bos\<close> is \<^verbatim>\<open>^\<close> and \<open>Eos\<close> is \<^verbatim>\<open>$\<close> without it, and a
  pattern under \<^verbatim>\<open>re.I\<close> is written with \<open>lit_ci\<close> and classes that hold both cases.
\<close>

datatype regex =
    Eps
  | Cls "char \<Rightarrow> bool"
  | Seq regex regex
  | Alt regex regex
  | Star regex
  | Grp string regex
  | Bol
  | Bos
  | Eos

text \<open>
  A matcher state: the text before the current position (reversed), the text after it,
  and the groups captured so far (the latest capture of a group first).
\<close>

record mstate =
  seen :: string
  todo :: string
  groups :: "(string \<times> string) list"

text \<open>
  Greedy repetition of a matcher \<open>f\<close>: one more round first, stopping as the second
  choice. A round that consumes nothing is not repeated, so at most \<open>length (todo st)\<close>
  rounds are possible, which is the fuel \<open>rmatch\<close> passes.
\<close>

fun star_iter :: "(mstate \<Rightarrow> mstate list) \<Rightarrow> nat \<Rightarrow> mstate \<Rightarrow> mstate list" where
  "star_iter f 0 st = [st]"
| "star_iter f (Suc n) st =
     concat (map (\<lambda>st'. if length (todo st') < length (todo st) then star_iter f n st' else [])
                 (f st)) @ [st]"

primrec rmatch :: "regex \<Rightarrow> mstate \<Rightarrow> mstate list" where
  "rmatch Eps st = [st]"
| "rmatch (Cls P) st =
     (case todo st of
        [] \<Rightarrow> []
      | c # cs \<Rightarrow> if P c then [st\<lparr>seen := c # seen st, todo := cs\<rparr>] else [])"
| "rmatch (Seq r1 r2) st = concat (map (rmatch r2) (rmatch r1 st))"
| "rmatch (Alt r1 r2) st = rmatch r1 st @ rmatch r2 st"
| "rmatch (Star r) st = star_iter (rmatch r) (length (todo st)) st"
| "rmatch (Grp g r) st =
     map (\<lambda>st'. st'\<lparr>groups := (g, take (length (todo st) - length (todo st')) (todo st))
                                  # groups st'\<rparr>)
         (rmatch r st)"
| "rmatch Bol st = (if seen st = [] \<or> hd (seen st) = newline then [st] else [])"
| "rmatch Bos st = (if seen st = [] then [st] else [])"
| "rmatch Eos st = (if todo st = [] \<or> todo st = [newline] then [st] else [])"

text \<open>\<^verbatim>\<open>r?\<close>, \<^verbatim>\<open>r+\<close>, a literal, a literal under \<^verbatim>\<open>re.I\<close>, and a sequence.\<close>

definition Opt :: "regex \<Rightarrow> regex" where
  "Opt r = Alt r Eps"

definition Plus :: "regex \<Rightarrow> regex" where
  "Plus r = Seq r (Star r)"

definition lit :: "string \<Rightarrow> regex" where
  "lit s = foldr (\<lambda>c r. Seq (Cls (\<lambda>x. x = c)) r) s Eps"

definition lit_ci :: "string \<Rightarrow> regex" where
  "lit_ci s = foldr (\<lambda>c r. Seq (Cls (\<lambda>x. lower_char x = lower_char c)) r) s Eps"

definition seqs :: "regex list \<Rightarrow> regex" where
  "seqs rs = foldr Seq rs Eps"

definition alts :: "regex list \<Rightarrow> regex" where
  "alts rs = foldr Alt (butlast rs) (last rs)"

text \<open>
  \<^verbatim>\<open>re.search\<close>: the first match at the leftmost position that has one. \<open>sn\<close> is the text
  already passed over, reversed.
\<close>

primrec search_from :: "regex \<Rightarrow> string \<Rightarrow> string \<Rightarrow> mstate option" where
  "search_from r sn [] =
     (case rmatch r \<lparr>seen = sn, todo = [], groups = []\<rparr> of
        [] \<Rightarrow> None
      | m # _ \<Rightarrow> Some m)"
| "search_from r sn (c # cs) =
     (case rmatch r \<lparr>seen = sn, todo = c # cs, groups = []\<rparr> of
        [] \<Rightarrow> search_from r (c # sn) cs
      | m # _ \<Rightarrow> Some m)"

definition re_search :: "regex \<Rightarrow> string \<Rightarrow> mstate option" where
  "re_search r s = search_from r [] s"

text \<open>\<^verbatim>\<open>m.group(g)\<close>: \<open>None\<close> for a group that took no part in the match.\<close>

definition group :: "mstate \<Rightarrow> string \<Rightarrow> string option" where
  "group m g = map_of (groups m) g"

subsection \<open>\<^verbatim>\<open>find_version\<close>\<close>

definition isquote :: "char \<Rightarrow> bool" where
  "isquote c = (c = CHR 0x27 \<or> c = CHR 0x22)"

text \<open>The pattern \<^verbatim>\<open>r"^__version__ = ['\"]([^'\"]*)['\"]"\<close> under \<^verbatim>\<open>re.M\<close>.\<close>

definition version_re :: regex where
  "version_re =
     seqs [Bol, lit ''__version__ = '', Cls isquote,
           Grp ''1'' (Star (Cls (\<lambda>c. \<not> isquote c))), Cls isquote]"

text \<open>
  The value returned is \<^verbatim>\<open>version_match.group(1)\<close> as it is, hence an \<open>option\<close>.
\<close>

definition find_version :: "world \<Rightarrow> string \<Rightarrow> string option eff" where
  "find_version w filepath =
     eff_bind (open_read w filepath) (\<lambda>text.
       case re_search version_re text of
         Some version_match \<Rightarrow> ret (group version_match ''1'')
       | None \<Rightarrow> raise RuntimeError)"

subsection \<open>\<^verbatim>\<open>packaging.version\<close>\<close>

text \<open>
  \<^verbatim>\<open>parse\<close> and \<^verbatim>\<open>Version\<close> belong to the \<^verbatim>\<open>packaging\<close> library (releases 22 and later,
  where \<^verbatim>\<open>parse(s)\<close> is \<^verbatim>\<open>Version(s)\<close>). A version holds the fields of \<^verbatim>\<open>_Version\<close>.
\<close>

record version =
  v_epoch :: nat
  v_release :: "nat list"
  v_pre :: "(string \<times> nat) option"
  v_post :: "(string \<times> nat) option"
  v_dev :: "(string \<times> nat) option"
  v_local :: "(nat + string) list option"

definition digits :: regex where
  "digits = Plus (Cls isdigit)"

definition sep_opt :: regex where
  "sep_opt = Opt (Cls (\<lambda>c. c \<in> set ''-_.''))"

definition isalnum_ci :: "char \<Rightarrow> bool" where
  "isalnum_ci c = (lower_char c \<in> set ''abcdefghijklmnopqrstuvwxyz0123456789'')"

text \<open>
  \<^verbatim>\<open>r"^\s*" + VERSION_PATTERN + r"\s*$"\<close> under \<^verbatim>\<open>re.VERBOSE | re.IGNORECASE\<close>, group by
  group in the order of the pattern.
\<close>

definition VERSION_PATTERN :: regex where
  "VERSION_PATTERN =
     seqs [
       Opt (lit_ci ''v''),
       Opt (Seq (Grp ''epoch'' digits) (lit ''!'')),
       Grp ''release'' (Seq digits (Star (Seq (lit ''.'') digits))),
       Opt (Grp ''pre'' (seqs [
         sep_opt,
         Grp ''pre_l'' (alts (map lit_ci
           [''alpha'', ''a'', ''beta'', ''b'', ''preview'', ''pre'', ''c'', ''rc''])),
         sep_opt,
         Opt (Grp ''pre_n'' digits)])),
       Opt (Grp ''post'' (Alt
         (Seq (lit ''-'') (Grp ''post_n1'' digits))
         (seqs [
           sep_opt,
           Grp ''post_l'' (alts (map lit_ci [''post'', ''rev'', ''r''])),
           sep_opt,
           Opt (Grp ''post_n2'' digits)]))),
       Opt (Grp ''dev'' (seqs [
         sep_opt,
         Grp ''dev_l'' (lit_ci ''dev''),
         sep_opt,
         Opt (Grp ''dev_n'' digits)])),
       Opt (Seq (lit ''+'')
         (Grp ''local'' (Seq (Plus (Cls isalnum_ci))
            (Star (Seq (Cls (\<lambda>c. c \<in> set ''-_.'')) (Plus (Cls isalnum_ci)))))))]"

definition version_regex :: regex where
  "version_regex = seqs [Bos, Star (Cls isspace), VERSION_PATTERN, Star (Cls isspace), Eos]"

text \<open>Python's truth value of an optional string: \<^verbatim>\<open>None\<close> and \<^verbatim>\<open>""\<close> are false.\<close>

definition truthy :: "string option \<Rightarrow> bool" where
  "truthy x = (case x of None \<Rightarrow> False | Some s \<Rightarrow> s \<noteq> [])"

text \<open>\<^verbatim>\<open>_parse_letter_version(letter, number)\<close>\<close>

definition parse_letter_version :: "string option \<Rightarrow> string option \<Rightarrow> (string \<times> nat) option" where
  "parse_letter_version letter number =
     (if truthy letter then
        (let n = (case number of None \<Rightarrow> 0 | Some d \<Rightarrow> int_of_digits d);
             l = lower (case letter of None \<Rightarrow> [] | Some s \<Rightarrow> s);
             l' = (if l = ''alpha'' then ''a''
                   else if l = ''beta'' then ''b''
                   else if l \<in> set [''c'', ''pre'', ''preview''] then ''rc''
                   else if l \<in> set [''rev'', ''r''] then ''post''
                   else l)
         in Some (l', n))
      else if truthy number then
        Some (''post'', int_of_digits (case number of None \<Rightarrow> [] | Some d \<Rightarrow> d))
      else None)"

text \<open>\<^verbatim>\<open>_parse_local_version(local)\<close>\<close>

definition parse_local_version :: "string option \<Rightarrow> (nat + string) list option" where
  "parse_local_version local =
     (case local of
        None \<Rightarrow> None
      | Some l \<Rightarrow>
          Some (map (\<lambda>part. if part \<noteq> [] \<and> list_all isdigit part
                             then Inl (int_of_digits part) else Inr (lower part))
                    (split_where (\<lambda>c. c \<in> set ''._-'') l)))"

text \<open>\<^verbatim>\<open>a or b\<close> on optional strings.\<close>

definition py_or :: "string option \<Rightarrow> string option \<Rightarrow> string option" where
  "py_or a b = (if truthy a then a else b)"

text \<open>\<^verbatim>\<open>parse(s)\<close>, that is \<^verbatim>\<open>Version(s)\<close>.\<close>

definition parse :: "string \<Rightarrow> error + version" where
  "parse s =
     (case re_search version_regex s of
        None \<Rightarrow> Inl InvalidVersion
      | Some m \<Rightarrow>
          (case group m ''release'' of
             None \<Rightarrow> Inl AttributeError
           | Some rel \<Rightarrow>
               Inr \<lparr>v_epoch = (if truthy (group m ''epoch'')
                               then int_of_digits (case group m ''epoch'' of None \<Rightarrow> [] | Some e \<Rightarrow> e)
                               else 0),
                    v_release = map int_of_digits (split_sep CHR ''.'' rel),
                    v_pre = parse_letter_version (group m ''pre_l'') (group m ''pre_n''),
                    v_post = parse_letter_version (group m ''post_l'')
                               (py_or (group m ''post_n1'') (group m ''post_n2'')),
                    v_dev = parse_letter_version (group m ''dev_l'') (group m ''dev_n''),
                    v_local = parse_local_version (group m ''local'')\<rparr>))"

text \<open>\<^verbatim>\<open>str(v)\<close>, \<^verbatim>\<open>v.major\<close> and \<^verbatim>\<open>v.minor\<close> of a \<^verbatim>\<open>Version\<close>.\<close>

definition str_local_part :: "nat + string \<Rightarrow> string" where
  "str_local_part x = (case x of Inl n \<Rightarrow> str_nat n | Inr s \<Rightarrow> s)"

definition version_str :: "version \<Rightarrow> string" where
  "version_str v =
     (if v_epoch v \<noteq> 0 then str_nat (v_epoch v) @ ''!'' else []) @
     join ''.'' (map str_nat (v_release v)) @
     (case v_pre v of None \<Rightarrow> [] | Some (l, n) \<Rightarrow> l @ str_nat n) @
     (case v_post v of None \<Rightarrow> [] | Some (l, n) \<Rightarrow> ''.post'' @ str_nat n) @
     (case v_dev v of None \<Rightarrow> [] | Some (l, n) \<Rightarrow> ''.dev'' @ str_nat n) @
     (case v_local v of None \<Rightarrow> [] | Some ps \<Rightarrow> ''+'' @ join ''.'' (map str_local_part ps))"

definition major :: "version \<Rightarrow> nat" where
  "major v = (if length (v_release v) \<ge> 1 then v_release v ! 0 else 0)"

definition minor :: "version \<Rightarrow> nat" where
  "minor v = (if length (v_release v) \<ge> 2 then v_release v ! 1 else 0)"

subsection \<open>Paths (\<^verbatim>\<open>posixpath\<close>)\<close>

text \<open>\<^verbatim>\<open>os.path.join(a, *p)\<close>\<close>

definition path_join :: "string \<Rightarrow> string list \<Rightarrow> string" where
  "path_join a p =
     foldl (\<lambda>path b. if startswith b ''/'' then b
                      else if path = [] \<or> endswith path ''/'' then path @ b
                      else path @ ''/'' @ b) a p"

text \<open>\<^verbatim>\<open>os.path.split(p)\<close> and \<^verbatim>\<open>os.path.dirname(p)\<close>: \<open>i\<close> is \<^verbatim>\<open>p.rfind('/') + 1\<close>.\<close>

definition path_split :: "string \<Rightarrow> string \<times> string" where
  "path_split p =
     (let i = length p - length (takeWhile (\<lambda>c. c \<noteq> CHR ''/'') (rev p));
          head = take i p;
          tail = drop i p
      in (if head \<noteq> [] \<and> head \<noteq> replicate (length head) CHR ''/''
          then rev (dropWhile (\<lambda>c. c = CHR ''/'') (rev head)) else head, tail))"

definition dirname :: "string \<Rightarrow> string" where
  "dirname p = fst (path_split p)"

subsection \<open>The constants of the script\<close>

definition ROOT_DIR :: "world \<Rightarrow> string" where
  "ROOT_DIR w = dirname (script_file w)"

definition MAIN_CUDA_VERSION :: string where
  "MAIN_CUDA_VERSION = ''12.1''"

definition DISTRIBUTION_NAME :: string where
  "DISTRIBUTION_NAME = ''flute-kernel''"

definition LIBRARY_NAME :: string where
  "LIBRARY_NAME = ''flute''"

definition CUTLASS_PATH :: string where
  "CUTLASS_PATH = ''/workspace/cutlass/''"

subsection \<open>\<^verbatim>\<open>get_nvcc_cuda_version\<close>, \<^verbatim>\<open>get_path\<close>, \<^verbatim>\<open>get_version\<close>\<close>

definition run_check_output :: "world \<Rightarrow> string list \<Rightarrow> string eff" where
  "run_check_output w argv = ([Subprocess argv], check_output w argv)"

definition get_nvcc_cuda_version :: "world \<Rightarrow> version eff" where
  "get_nvcc_cuda_version w =
     (case CUDA_HOME w of
        None \<Rightarrow> raise AssertionError
      | Some home \<Rightarrow>
          eff_bind (run_check_output w [path_join home [''bin/nvcc''], ''-V'']) (\<lambda>nvcc_output.
            let output = split_ws nvcc_output
            in case index output ''release'' of
                 None \<Rightarrow> raise ValueError
               | Some i \<Rightarrow>
                   (let release_idx = i + 1
                    in case item output release_idx of
                         None \<Rightarrow> raise IndexError
                       | Some tok \<Rightarrow>
                           (case item (split_sep CHR '','' tok) 0 of
                              None \<Rightarrow> raise IndexError
                            | Some x \<Rightarrow>
                                (case parse x of
                                   Inl e \<Rightarrow> raise e
                                 | Inr nvcc_cuda_version \<Rightarrow> ret nvcc_cuda_version)))))"

definition get_path :: "world \<Rightarrow> string list \<Rightarrow> string" where
  "get_path w filepath = path_join (ROOT_DIR w) filepath"

text \<open>
  \<^verbatim>\<open>version += ...\<close> raises \<^verbatim>\<open>TypeError\<close> when \<^verbatim>\<open>find_version\<close> returned \<^verbatim>\<open>None\<close>.
\<close>

definition get_version :: "world \<Rightarrow> string eff" where
  "get_version w =
     eff_bind (find_version w (get_path w [LIBRARY_NAME, ''__init__.py''])) (\<lambda>version.
     eff_bind (get_nvcc_cuda_version w) (\<lambda>nv.
       let cuda_version = version_str nv;
           cuda_version_str = take 3 (replace CHR ''.'' [] cuda_version)
       in case parse (torch_version w) of
            Inl e \<Rightarrow> raise e
          | Inr torch_version_raw \<Rightarrow>
              (let torch_version_str =
                     str_nat (major torch_version_raw) @ ''.'' @ str_nat (minor torch_version_raw)
               in case version of
                    None \<Rightarrow> raise TypeError
                  | Some v \<Rightarrow> ret (v @ ''+cu'' @ cuda_version_str @ ''torch'' @ torch_version_str))))"

subsection \<open>\<^verbatim>\<open>glob\<close> and \<^verbatim>\<open>get_extensions\<close>\<close>

text \<open>\<^verbatim>\<open>fnmatch\<close> for a pattern of literal characters, \<^verbatim>\<open>*\<close> and \<^verbatim>\<open>?\<close> (no brackets).\<close>

fun fnmatch :: "string \<Rightarrow> string \<Rightarrow> bool" where
  "fnmatch [] [] = True"
| "fnmatch [] (c # cs) = False"
| "fnmatch (p # ps) [] = (p = CHR ''*'' \<and> fnmatch ps [])"
| "fnmatch (p # ps) (c # cs) =
     (if p = CHR ''*'' then fnmatch ps (c # cs) \<or> fnmatch (p # ps) cs
      else (p = CHR ''?'' \<or> p = c) \<and> fnmatch ps cs)"

definition ishidden :: "string \<Rightarrow> bool" where
  "ishidden x = (case x of [] \<Rightarrow> False | c # _ \<Rightarrow> c = CHR ''.'')"

text \<open>
  \<^verbatim>\<open>glob.glob(pathname)\<close> for a pathname whose last component holds the wildcards and
  whose directory part holds none, as both patterns of the script are: the names of the
  directory, without the hidden ones unless the pattern is hidden, that match the last
  component, each joined to the directory. A directory that cannot be listed gives no
  name.
\<close>

definition glob :: "world \<Rightarrow> string \<Rightarrow> string list eff" where
  "glob w pathname =
     (let (dirname, basename) = path_split pathname;
          names = (case listdir w (if dirname = [] then ''.'' else dirname) of
                     None \<Rightarrow> []
                   | Some ns \<Rightarrow> ns);
          visible = (if ishidden basename then names else filter (\<lambda>x. \<not> ishidden x) names);
          matched = filter (fnmatch basename) visible
      in ([Glob pathname],
          Inr (if dirname = [] then matched else map (\<lambda>name. path_join dirname [name]) matched)))"

text \<open>
  The extension descriptor is modelled by the arguments the script passes to
  \<^verbatim>\<open>CUDAExtension\<close>; what torch adds to them (its own include and library directories)
  is outside the script.
\<close>

record extension =
  name :: string
  sources :: "string list"
  extra_compile_args :: "(string \<times> string list) list"
  extra_link_args :: "string list"
  include_dirs :: "string list"

text \<open>
  \<^verbatim>\<open>torch.utils.cpp_extension.CUDAExtension\<close> (of a CUDA build of torch): to add the
  library directories of CUDA it joins paths to \<open>CUDA_HOME\<close>, and raises \<^verbatim>\<open>OSError\<close> when
  \<open>CUDA_HOME\<close> is unset; otherwise it returns the descriptor. It does not look at the
  source list.
\<close>

definition CUDAExtension ::
  "world \<Rightarrow> string \<Rightarrow> string list \<Rightarrow> (string \<times> string list) list \<Rightarrow> string list \<Rightarrow>
   string list \<Rightarrow> extension eff"
where
  "CUDAExtension w ext_name srcs compile_args link_args dirs =
     (case CUDA_HOME w of
        None \<Rightarrow> raise OSError
      | Some _ \<Rightarrow>
          ret \<lparr>name = ext_name,
               sources = srcs,
               extra_compile_args = compile_args,
               extra_link_args = link_args,
               include_dirs = dirs\<rparr>)"

definition get_extensions :: "world \<Rightarrow> extension list eff" where
  "get_extensions w =
     (let extra_link_args = [];
          extra_compile_args =
            [(''cxx'', [''-std=c++17'']),
             (''nvcc'', [''-gencode=arch=compute_80,code=sm_80'',
                        ''-gencode=arch=compute_86,code=sm_86'',
                        ''-gencode=arch=compute_89,code=sm_89'',
                        ''-gencode=arch=compute_90,code=sm_90'',
                        ''-gencode=arch=compute_90,code=compute_90'',
                        ''-std=c++17''])];
          include_dirs =
            [path_join CUTLASS_PATH [''include''],
             path_join CUTLASS_PATH [''tools/util/include'']];
          this_dir = dirname ''.'';
          extensions_dir = path_join this_dir [LIBRARY_NAME, ''csrc'']
      in eff_bind (glob w (path_join extensions_dir [''*.cpp''])) (\<lambda>cpp.
         eff_bind (glob w (path_join extensions_dir [''*.cu''])) (\<lambda>cu.
           let sources = cpp @ cu
           in eff_bind (CUDAExtension w (LIBRARY_NAME @ ''._C'') sources
                          extra_compile_args extra_link_args include_dirs) (\<lambda>ext.
                ret [ext]))))"

subsection \<open>\<^verbatim>\<open>get_requirements\<close>\<close>

text \<open>
  \<^verbatim>\<open>_read_requirements\<close> calls itself for every \<^verbatim>\<open>-r\<close> line. Nothing in the script bounds
  the depth of these calls; the interpreter's recursion limit does. \<open>read_requirements n\<close>
  is the call when there is room for \<open>n\<close> nested calls: with no room left the call raises
  \<^verbatim>\<open>RecursionError\<close>, which nothing in the script catches.
\<close>

text \<open>
  The \<^verbatim>\<open>for\<close> loop over the lines; \<open>recurse\<close> is the recursive call and
  \<open>resolved_requirements\<close> the list built so far.
\<close>

fun resolve_lines ::
  "(string \<Rightarrow> string list eff) \<Rightarrow> string list \<Rightarrow> string list \<Rightarrow> string list eff"
where
  "resolve_lines recurse [] resolved_requirements = ret resolved_requirements"
| "resolve_lines recurse (line # requirements) resolved_requirements =
     (if startswith line ''-r '' then
        (case item (split_ws line) 1 of
           None \<Rightarrow> raise IndexError
         | Some filename \<Rightarrow>
             eff_bind (recurse filename) (\<lambda>included.
               resolve_lines recurse requirements (resolved_requirements @ included)))
      else resolve_lines recurse requirements (resolved_requirements @ [line]))"

fun read_requirements :: "nat \<Rightarrow> world \<Rightarrow> string \<Rightarrow> string list eff" where
  "read_requirements 0 w filename = raise RecursionError"
| "read_requirements (Suc frames) w filename =
     eff_bind (open_read w (get_path w [filename])) (\<lambda>text.
       let requirements = split_sep newline (strip text)
       in resolve_lines (\<lambda>f. read_requirements frames w f) requirements [])"

definition get_requirements :: "world \<Rightarrow> string list eff" where
  "get_requirements w = read_requirements (recursion_frames w) w ''requirements.txt''"

subsection \<open>The call of \<^verbatim>\<open>setup\<close>\<close>

text \<open>
  The keyword arguments are evaluated from left to right: \<^verbatim>\<open>get_version()\<close>,
  \<^verbatim>\<open>find_packages()\<close>, \<^verbatim>\<open>get_extensions()\<close>, \<^verbatim>\<open>get_requirements()\<close>; then \<^verbatim>\<open>setup\<close> runs.
  The result is the arguments \<^verbatim>\<open>setup\<close> receives.
\<close>

record setup_args =
  arg_name :: string
  arg_version :: string
  arg_packages :: "string list"
  arg_include_package_data :: bool
  arg_ext_modules :: "extension list"
  arg_install_requires :: "string list"

definition find_packages :: "world \<Rightarrow> string list eff" where
  "find_packages w = ([FindPackages], Inr (packages w))"

definition setup_script :: "world \<Rightarrow> setup_args eff" where
  "setup_script w =
     eff_bind (get_version w) (\<lambda>version.
     eff_bind (find_packages w) (\<lambda>pkgs.
     eff_bind (get_extensions w) (\<lambda>exts.
     eff_bind (get_requirements w) (\<lambda>reqs.
       ([Setup],
        Inr \<lparr>arg_name = DISTRIBUTION_NAME,
             arg_version = version,
             arg_packages = pkgs,
             arg_include_package_data = True,
             arg_ext_modules = exts,
             arg_install_requires = reqs\<rparr>)))))"

definition is_glob :: "event \<Rightarrow> bool" where
  "is_glob ev = (case ev of Glob _ \<Rightarrow> True | _ \<Rightarrow> False)"

subsection \<open>Notions used to state the properties\<close>

text \<open>A position is at the start of a line when nothing or a newline precedes it.\<close>

definition at_line_start :: "string \<Rightarrow> bool" where
  "at_line_start before = (before = [] \<or> last before = newline)"

text \<open>A text begins an assignment when it starts with \<^verbatim>\<open>__version__ = \<close> and a quote.\<close>

definition begins_assignment :: "string \<Rightarrow> bool" where
  "begins_assignment l =
     (startswith l ''__version__ = '' \<and> (case drop 14 l of [] \<Rightarrow> False | q # _ \<Rightarrow> isquote q))"

text \<open>
  The version literal that starts at the head of a text, read directly: the assignment,
  the characters up to the next quote, and that quote.
\<close>

definition assignment_at :: "string \<Rightarrow> string option" where
  "assignment_at s =
     (if begins_assignment s
      then (case dropWhile (\<lambda>c. \<not> isquote c) (drop 15 s) of
              [] \<Rightarrow> None
            | _ # _ \<Rightarrow> Some (takeWhile (\<lambda>c. \<not> isquote c) (drop 15 s)))
      else None)"

text \<open>
  The first version literal at a line start; \<open>bol\<close> says whether the head of the text
  is at a line start.
\<close>

primrec first_assignment :: "bool \<Rightarrow> string \<Rightarrow> string option" where
  "first_assignment bol [] = None"
| "first_assignment bol (c # cs) =
     (case (if bol then assignment_at (c # cs) else None) of
        Some v \<Rightarrow> Some v
      | None \<Rightarrow> first_assignment (c = newline) cs)"

text \<open>
  A world for examples: \<open>home\<close> is \<open>CUDA_HOME\<close>, every subprocess prints \<open>nvcc_out\<close>,
  \<open>files\<close> lists the readable files and their contents, every directory lists \<open>names\<close>,
  and there is room for 990 nested calls.
\<close>

definition demo_world ::
  "string option \<Rightarrow> string \<Rightarrow> (string \<times> string) list \<Rightarrow> string list option \<Rightarrow> string \<Rightarrow> world"
where
  "demo_world home nvcc_out files names torch =
     \<lparr>CUDA_HOME = home,
      check_output = (\<lambda>argv. Inr nvcc_out),
      read_text = (\<lambda>p. case map_of files p of None \<Rightarrow> Inl OSError | Some t \<Rightarrow> Inr t),
      listdir = (\<lambda>d. names),
      torch_version = torch,
      script_file = ''setup.py'',
      packages = [''flute''],
      recursion_frames = 990\<rparr>"

text \<open>What \<^verbatim>\<open>nvcc -V\<close> of CUDA 12.1 prints.\<close>

definition nvcc_12_1_output :: string where
  "nvcc_12_1_output =
     ''nvcc: NVIDIA (R) Cuda compiler driver'' @ [newline] @
     ''Copyright (c) 2005-2023 NVIDIA Corporation'' @ [newline] @
     ''Built on Mon_Apr__3_17:16:06_PDT_2023'' @ [newline] @
     ''Cuda compilation tools, release 12.1, V12.1.105'' @ [newline] @
     ''Build cuda_12.1.r12.1/compiler.32688072_0'' @ [newline]"
section \<open>The matcher on the pattern of \<^verbatim>\<open>find_version\<close>\<close>

lemma rmatch_lit:
  "rmatch (lit l) st =
     (if take (length l) (todo st) = l
      then [st\<lparr>seen := rev l @ seen st, todo := drop (length l) (todo st)\<rparr>] else [])"
proof (induction l arbitrary: st)
  case Nil
  show ?case by (simp add: lit_def)
next
  case (Cons c l)
  have unf: "lit (c # l) = Seq (Cls (\<lambda>x. x = c)) (lit l)"
    by (simp add: lit_def)
  show ?case
    by (cases "todo st") (auto simp: unf Cons.IH)
qed

lemma star_cls_todo_le:
  "s' \<in> set (star_iter (rmatch (Cls P)) n st) \<Longrightarrow> length (todo s') \<le> length (todo st)"
  by (induction n arbitrary: st) (fastforce split: list.splits if_splits)+

lemma star_cls_then:
  assumes "\<And>c. Q c = (\<not> P c)"
  shows "length (todo st) \<le> n \<Longrightarrow>
     concat (map (\<lambda>s'. rmatch (Cls Q) (s'\<lparr>groups := (g, pre @ take (length (todo st) - length (todo s')) (todo st)) # groups s'\<rparr>))
                 (star_iter (rmatch (Cls P)) n st)) =
     (case dropWhile P (todo st) of
        [] \<Rightarrow> []
      | c # cs \<Rightarrow> [st\<lparr>seen := c # rev (takeWhile P (todo st)) @ seen st, todo := cs,
                      groups := (g, pre @ takeWhile P (todo st)) # groups st\<rparr>])"
proof (induction n arbitrary: st pre)
  case 0
  then show ?case by simp
next
  case (Suc n)
  show ?case
  proof (cases "todo st")
    case Nil
    then show ?thesis by simp
  next
    case (Cons c cs)
    show ?thesis
    proof (cases "P c")
      case True
      let ?st1 = "st\<lparr>seen := c # seen st, todo := cs\<rparr>"
      have len: "length (todo ?st1) \<le> n" using Suc.prems Cons by simp
      have "concat (map (\<lambda>s'. rmatch (Cls Q) (s'\<lparr>groups := (g, (pre @ [c]) @ take (length (todo ?st1) - length (todo s')) (todo ?st1)) # groups s'\<rparr>))
                 (star_iter (rmatch (Cls P)) n ?st1)) =
     (case dropWhile P (todo ?st1) of
        [] \<Rightarrow> []
      | c' # cs' \<Rightarrow> [?st1\<lparr>seen := c' # rev (takeWhile P (todo ?st1)) @ seen ?st1, todo := cs',
                      groups := (g, (pre @ [c]) @ takeWhile P (todo ?st1)) # groups ?st1\<rparr>])"
        (is "?L = ?R") by (rule Suc.IH[OF len])
      note IH = this
      have unf: "star_iter (rmatch (Cls P)) (Suc n) st = star_iter (rmatch (Cls P)) n ?st1 @ [st]"
        using Cons True by simp
      have last_fails: "rmatch (Cls Q) (st\<lparr>groups := (g, pre @ take (length (todo st) - length (todo st)) (todo st)) # groups st\<rparr>) = []"
        using Cons True assms by simp
      have cong: "map (\<lambda>s'. rmatch (Cls Q) (s'\<lparr>groups := (g, pre @ take (length (todo st) - length (todo s')) (todo st)) # groups s'\<rparr>))
                 (star_iter (rmatch (Cls P)) n ?st1) =
            map (\<lambda>s'. rmatch (Cls Q) (s'\<lparr>groups := (g, (pre @ [c]) @ take (length (todo ?st1) - length (todo s')) (todo ?st1)) # groups s'\<rparr>))
                 (star_iter (rmatch (Cls P)) n ?st1)"
      proof (rule map_cong[OF refl])
        fix s' assume "s' \<in> set (star_iter (rmatch (Cls P)) n ?st1)"
        then have "length (todo s') \<le> length cs"
          using star_cls_todo_le[of s' P n ?st1] by simp
        then have "take (length (todo st) - length (todo s')) (todo st) = c # take (length cs - length (todo s')) cs"
          using Cons by (simp add: Suc_diff_le)
        then show "rmatch (Cls Q) (s'\<lparr>groups := (g, pre @ take (length (todo st) - length (todo s')) (todo st)) # groups s'\<rparr>) =
            rmatch (Cls Q) (s'\<lparr>groups := (g, (pre @ [c]) @ take (length (todo ?st1) - length (todo s')) (todo ?st1)) # groups s'\<rparr>)"
          by simp
      qed
      have nz: "\<And>a b. dropWhile P cs = a # b \<Longrightarrow> \<exists>x\<in>set cs. \<not> P x"
        by (metis dropWhile_eq_Nil_conv list.discI)
      show ?thesis
        unfolding unf map_append concat_append cong IH
        using Cons True assms nz by (auto split: list.splits)
    next
      case False
      then show ?thesis using Cons assms by simp
    qed
  qed
qed


lemma rmatch_Seq_Eps: "rmatch (Seq r Eps) st = rmatch r st"
proof -
  have "concat (map (\<lambda>x. [x]) xs) = xs" for xs :: "mstate list"
    by (induction xs) simp_all
  moreover have "rmatch Eps = (\<lambda>x. [x])"
    by (rule ext) simp
  ultimately show ?thesis by simp
qed

lemma rmatch_anchored_quoted:
  assumes PQ: "\<And>c. Q c = (\<not> P c)"
  shows "rmatch (Seq Bol (Seq (lit l) (Seq (Cls Q) (Seq (Grp g (Star (Cls P))) (Seq (Cls Q) Eps))))) st =
     (if (seen st = [] \<or> hd (seen st) = newline) \<and> take (length l) (todo st) = l
      then (case drop (length l) (todo st) of
              [] \<Rightarrow> []
            | q # body \<Rightarrow>
                if Q q
                then (case dropWhile P body of
                        [] \<Rightarrow> []
                      | c # cs \<Rightarrow> [st\<lparr>seen := c # rev (takeWhile P body) @ q # rev l @ seen st,
                                      todo := cs,
                                      groups := (g, takeWhile P body) # groups st\<rparr>])
                else [])
      else [])"
proof (cases "(seen st = [] \<or> hd (seen st) = newline) \<and> take (length l) (todo st) = l")
  case False
  then show ?thesis
    by (cases "seen st = [] \<or> hd (seen st) = newline") (simp_all add: rmatch_lit)
next
  case ok: True
  let ?st1 = "st\<lparr>seen := rev l @ seen st, todo := drop (length l) (todo st)\<rparr>"
  have step1: "rmatch (Seq Bol (Seq (lit l) R)) st = rmatch R ?st1" for R
    using ok by (auto simp: rmatch_lit)
  show ?thesis
  proof (cases "drop (length l) (todo st)")
    case Nil
    then show ?thesis unfolding step1 using ok by simp
  next
    case (Cons q body)
    show ?thesis
    proof (cases "Q q")
      case False
      then show ?thesis unfolding step1 using ok Cons by simp
    next
      case True
      let ?st2 = "st\<lparr>seen := q # rev l @ seen st, todo := body\<rparr>"
      let ?grp = "\<lambda>s'. s'\<lparr>groups := (g, take (length body - length (todo s')) body) # groups s'\<rparr>"
      have step2: "rmatch (Seq (Cls Q) R) ?st1 = rmatch R ?st2" for R
        using Cons True by simp
      have eps: "rmatch (Seq (Cls Q) Eps) = rmatch (Cls Q)"
        by (rule ext) (rule rmatch_Seq_Eps)
      have step3: "rmatch (Seq (Grp g (Star (Cls P))) (Seq (Cls Q) Eps)) ?st2 =
            concat (map (\<lambda>s'. rmatch (Cls Q) (?grp s')) (star_iter (rmatch (Cls P)) (length body) ?st2))"
        unfolding rmatch.simps(3) eps by (simp add: comp_def)
      have star: "concat (map (\<lambda>s'. rmatch (Cls Q) (?grp s')) (star_iter (rmatch (Cls P)) (length body) ?st2)) =
           (case dropWhile P body of
              [] \<Rightarrow> []
            | c # cs \<Rightarrow> [st\<lparr>seen := c # rev (takeWhile P body) @ q # rev l @ seen st, todo := cs,
                      groups := (g, takeWhile P body) # groups st\<rparr>])"
        using star_cls_then[where Q=Q and P=P and st="?st2" and n="length body" and g=g and pre="[]", OF PQ]
        by (simp del: dropWhile_eq_Nil_conv cong: list.case_cong)
      show ?thesis
        unfolding step1 step2 step3 star using ok Cons True by simp
    qed
  qed
qed

lemma prefix_len: "length ''__version__ = '' = 14"
  by simp

lemma begins_assignment_iff:
  "begins_assignment s \<longleftrightarrow> (\<exists>q body. s = ''__version__ = '' @ q # body \<and> isquote q)"
proof
  assume b: "begins_assignment s"
  then have t: "take 14 s = ''__version__ = ''"
    unfolding begins_assignment_def startswith_def prefix_len by simp
  from b obtain q body where d: "drop 14 s = q # body" and q: "isquote q"
    unfolding begins_assignment_def by (auto split: list.splits)
  have "s = take 14 s @ drop 14 s" by simp
  then have "s = ''__version__ = '' @ q # body" unfolding t d .
  with q show "\<exists>q body. s = ''__version__ = '' @ q # body \<and> isquote q" by blast
next
  assume "\<exists>q body. s = ''__version__ = '' @ q # body \<and> isquote q"
  then show "begins_assignment s"
    by (auto simp: begins_assignment_def startswith_def)
qed

lemma assignment_at_begins:
  "isquote q \<Longrightarrow> assignment_at (''__version__ = '' @ q # body) =
     (case dropWhile (\<lambda>c. \<not> isquote c) body of
        [] \<Rightarrow> None
      | _ # _ \<Rightarrow> Some (takeWhile (\<lambda>c. \<not> isquote c) body))"
  by (simp add: assignment_at_def begins_assignment_def startswith_def
        del: dropWhile_eq_Nil_conv split: list.splits)

lemma assignment_at_not_begins: "\<not> begins_assignment s \<Longrightarrow> assignment_at s = None"
  by (simp add: assignment_at_def)

lemma rmatch_version_re:
  "map (\<lambda>m. group m ''1'') (rmatch version_re st) =
     (if seen st = [] \<or> hd (seen st) = newline
      then (case assignment_at (todo st) of None \<Rightarrow> [] | Some v \<Rightarrow> [Some v])
      else [])"
proof -
  have shape: "version_re = Seq Bol (Seq (lit ''__version__ = '') (Seq (Cls isquote)
      (Seq (Grp ''1'' (Star (Cls (\<lambda>c. \<not> isquote c)))) (Seq (Cls isquote) Eps))))"
    by (simp add: version_re_def seqs_def)
  have pq: "\<And>c. isquote c = (\<not> \<not> isquote c)" by simp
  note A = rmatch_anchored_quoted[where Q=isquote and P="\<lambda>c. \<not> isquote c"
      and l="''__version__ = ''" and g="''1''" and st=st, OF pq, folded shape, unfolded prefix_len]
  show ?thesis
  proof (cases "begins_assignment (todo st)")
    case False
    then have none: "assignment_at (todo st) = None" by (rule assignment_at_not_begins)
    have "\<not> (take 14 (todo st) = ''__version__ = '' \<and> (case drop 14 (todo st) of [] \<Rightarrow> False | q # _ \<Rightarrow> isquote q))"
      using False unfolding begins_assignment_def startswith_def prefix_len .
    then have "rmatch version_re st = []"
      by (subst A) (auto split: list.splits)
    then show ?thesis using none by simp
  next
    case True
    then obtain q body where s: "todo st = ''__version__ = '' @ q # body" and q: "isquote q"
      unfolding begins_assignment_iff by blast
    have t: "take 14 (todo st) = ''__version__ = ''" and d: "drop 14 (todo st) = q # body"
      unfolding s by simp_all
    have aa: "assignment_at (todo st) =
        (case dropWhile (\<lambda>c. \<not> isquote c) body of
           [] \<Rightarrow> None
         | _ # _ \<Rightarrow> Some (takeWhile (\<lambda>c. \<not> isquote c) body))"
      unfolding s by (rule assignment_at_begins[OF q])
    show ?thesis
      unfolding A t d aa using q
      by (simp add: group_def del: dropWhile_eq_Nil_conv split: list.splits)
  qed
qed

lemma search_from_version_re:
  "map_option (\<lambda>m. group m ''1'') (search_from version_re sn s) =
   map_option Some (first_assignment (sn = [] \<or> hd sn = newline) s)"
proof (induction s arbitrary: sn)
  case Nil
  have "map (\<lambda>m. group m ''1'') (rmatch version_re \<lparr>seen = sn, todo = [], groups = []\<rparr>) = []"
    unfolding rmatch_version_re by (simp add: assignment_at_def begins_assignment_def startswith_def)
  then show ?case by simp
next
  case (Cons c cs)
  let ?st = "\<lparr>seen = sn, todo = c # cs, groups = []\<rparr>"
  let ?b = "sn = [] \<or> hd sn = newline"
  have m: "map (\<lambda>m. group m ''1'') (rmatch version_re ?st) =
     (if ?b then (case assignment_at (c # cs) of None \<Rightarrow> [] | Some v \<Rightarrow> [Some v]) else [])"
    unfolding rmatch_version_re by simp
  have ih: "map_option (\<lambda>m. group m ''1'') (search_from version_re (c # sn) cs) =
     map_option Some (first_assignment (c = newline) cs)"
    using Cons.IH[of "c # sn"] by simp
  show ?case
  proof (cases "rmatch version_re ?st")
    case Nil
    then have "(if ?b then assignment_at (c # cs) else None) = None"
      using m by (auto split: option.splits if_splits)
    then show ?thesis using Nil ih by simp
  next
    case (Cons m0 ms)
    then obtain v where "(if ?b then assignment_at (c # cs) else None) = Some v" "group m0 ''1'' = Some v"
      using m by (auto split: option.splits if_splits)
    then show ?thesis using Cons by simp
  qed
qed

lemma find_version_eq:
  "find_version w p =
     ([OpenRead p],
      case read_text w p of
        Inl e \<Rightarrow> Inl e
      | Inr contents \<Rightarrow> (case first_assignment True contents of
                       None \<Rightarrow> Inl RuntimeError
                     | Some v \<Rightarrow> Inr (Some v)))"
proof (cases "read_text w p")
  case (Inl e)
  then show ?thesis by (simp add: find_version_def open_read_def eff_bind_def)
next
  case (Inr contents)
  have s: "map_option (\<lambda>m. group m ''1'') (re_search version_re contents) =
           map_option Some (first_assignment True contents)"
    unfolding re_search_def using search_from_version_re[of "[]" contents] by simp
  show ?thesis
  proof (cases "re_search version_re contents")
    case None
    then have "first_assignment True contents = None" using s by simp
    then show ?thesis using Inr None
      by (simp add: find_version_def open_read_def eff_bind_def raise_def)
  next
    case (Some m)
    then obtain v where "first_assignment True contents = Some v" "group m ''1'' = Some v"
      using s by (cases "first_assignment True contents") auto
    then show ?thesis using Inr Some
      by (simp add: find_version_def open_read_def eff_bind_def ret_def)
  qed
qed
section \<open>The first assignment at a line start\<close>

lemma split_where_nonempty: "split_where P s \<noteq> []"
  by (induction s) (auto split: list.splits)

lemma hd_split_where: "hd (split_where P s) = takeWhile (\<lambda>c. \<not> P c) s"
  by (induction s) (auto split: list.splits simp: split_where_nonempty)

lemma split_where_Cons_sep: "P c \<Longrightarrow> split_where P (c # cs) = [] # split_where P cs"
  by simp

lemma split_where_Cons_other:
  "\<not> P c \<Longrightarrow> split_where P (c # cs) = (c # hd (split_where P cs)) # tl (split_where P cs)"
  by (cases "split_where P cs") (simp_all add: split_where_nonempty)

lemma split_where_append_sep:
  "P c \<Longrightarrow> split_where P (xs @ c # ys) = split_where P xs @ split_where P ys"
proof (induction xs)
  case Nil
  then show ?case by simp
next
  case (Cons x xs)
  then show ?case
    by (cases "split_where P xs") (auto simp: split_where_nonempty)
qed

lemma not_begins_Nil: "\<not> begins_assignment []"
  by (simp add: begins_assignment_def startswith_def)

lemma assignment_at_Nil: "assignment_at [] = None"
  by (simp add: assignment_at_def not_begins_Nil)

lemma newline_not_quote: "\<not> isquote newline"
  by (simp add: isquote_def newline_def)

lemma begins_first_line:
  assumes b: "begins_assignment (a @ r)" and nl: "newline \<in> set a"
  shows "begins_assignment (takeWhile (\<lambda>c. c \<noteq> newline) a)"
proof -
  from b obtain q body where e: "a @ r = ''__version__ = '' @ q # body" and q: "isquote q"
    unfolding begins_assignment_iff by blast
  let ?p = "''__version__ = '' @ [q]"
  have pnl: "\<forall>c\<in>set ?p. c \<noteq> newline"
    using q newline_not_quote by (auto simp: newline_def)
  have "takeWhile (\<lambda>c. c \<noteq> newline) a = takeWhile (\<lambda>c. c \<noteq> newline) (a @ r)"
    using nl by (simp add: takeWhile_append1)
  also have "\<dots> = takeWhile (\<lambda>c. c \<noteq> newline) (?p @ body)"
    using e by simp
  also have "\<dots> = ?p @ takeWhile (\<lambda>c. c \<noteq> newline) body"
    by (rule takeWhile_append2) (use pnl in blast)
  finally have "takeWhile (\<lambda>c. c \<noteq> newline) a = ''__version__ = '' @ q # takeWhile (\<lambda>c. c \<noteq> newline) body"
    by simp
  with q show ?thesis unfolding begins_assignment_iff by blast
qed

lemma assignment_at_Some_iff:
  "assignment_at s = Some v \<longleftrightarrow>
     (\<exists>q1 q2 post. s = ''__version__ = '' @ [q1] @ v @ [q2] @ post \<and> isquote q1 \<and> isquote q2
        \<and> (\<forall>c\<in>set v. \<not> isquote c))"
proof
  assume a: "assignment_at s = Some v"
  then have "begins_assignment s"
    by (auto simp: assignment_at_def split: if_splits)
  then obtain q1 body where s: "s = ''__version__ = '' @ q1 # body" and q1: "isquote q1"
    unfolding begins_assignment_iff by blast
  from a have c: "(case dropWhile (\<lambda>c. \<not> isquote c) body of
        [] \<Rightarrow> None
      | _ # _ \<Rightarrow> Some (takeWhile (\<lambda>c. \<not> isquote c) body)) = Some v"
    unfolding s assignment_at_begins[OF q1] .
  then obtain q2 post where d: "dropWhile (\<lambda>c. \<not> isquote c) body = q2 # post"
    by (cases "dropWhile (\<lambda>c. \<not> isquote c) body") simp_all
  with c have v: "v = takeWhile (\<lambda>c. \<not> isquote c) body" by simp
  have q2: "isquote q2" using d hd_dropWhile[of "\<lambda>c. \<not> isquote c" body] by auto
  have "body = v @ q2 # post" unfolding v d[symmetric] by simp
  moreover have "\<forall>c\<in>set v. \<not> isquote c" unfolding v by (auto dest: set_takeWhileD)
  ultimately show "\<exists>q1 q2 post. s = ''__version__ = '' @ [q1] @ v @ [q2] @ post \<and> isquote q1 \<and> isquote q2
        \<and> (\<forall>c\<in>set v. \<not> isquote c)"
    using s q1 q2 by auto
next
  assume "\<exists>q1 q2 post. s = ''__version__ = '' @ [q1] @ v @ [q2] @ post \<and> isquote q1 \<and> isquote q2
        \<and> (\<forall>c\<in>set v. \<not> isquote c)"
  then obtain q1 q2 post where s: "s = ''__version__ = '' @ q1 # (v @ q2 # post)"
    and q1: "isquote q1" and q2: "isquote q2" and v: "\<forall>c\<in>set v. \<not> isquote c"
    by auto
  have d: "dropWhile (\<lambda>c. \<not> isquote c) (v @ q2 # post) = q2 # post"
    using v q2 by (simp add: dropWhile_append2)
  have t: "takeWhile (\<lambda>c. \<not> isquote c) (v @ q2 # post) = v"
    using v q2 by (simp add: takeWhile_append2)
  show "assignment_at s = Some v"
    unfolding s assignment_at_begins[OF q1] d t by simp
qed

lemma assignment_at_closed:
  assumes b: "begins_assignment s" and q: "\<exists>c\<in>set (drop 15 s). isquote c"
  shows "assignment_at s \<noteq> None"
proof -
  from q have "dropWhile (\<lambda>c. \<not> isquote c) (drop 15 s) \<noteq> []"
    by (simp add: dropWhile_eq_Nil_conv)
  then show ?thesis using b
    by (auto simp: assignment_at_def split: list.splits)
qed

lemma split_sep_Cons_sep: "split_sep sep (sep # cs) = [] # split_sep sep cs"
  by (simp add: split_sep_def)

lemma split_sep_Cons_other:
  "c \<noteq> sep \<Longrightarrow> split_sep sep (c # cs) = (c # hd (split_sep sep cs)) # tl (split_sep sep cs)"
  unfolding split_sep_def by (rule split_where_Cons_other)

lemma set_split_sep:
  "set (split_sep sep s) = insert (hd (split_sep sep s)) (set (tl (split_sep sep s)))"
  by (cases "split_sep sep s") (simp_all add: split_sep_def split_where_nonempty)

lemma hd_split_sep: "hd (split_sep sep s) = takeWhile (\<lambda>c. c \<noteq> sep) s"
  unfolding split_sep_def by (rule hd_split_where)

lemma begins_append: "begins_assignment l \<Longrightarrow> begins_assignment (l @ r)"
  unfolding begins_assignment_iff by auto

lemma begins_has_quote_later:
  assumes l: "begins_assignment l" and r: "begins_assignment r"
  shows "assignment_at (l @ d @ r) \<noteq> None"
proof -
  from l obtain q body where e: "l = ''__version__ = '' @ q # body" and q: "isquote q"
    unfolding begins_assignment_iff by blast
  from r obtain q' body' where e': "r = ''__version__ = '' @ q' # body'" and q': "isquote q'"
    unfolding begins_assignment_iff by blast
  have "drop 15 (l @ d @ r) = body @ d @ r" unfolding e by simp
  moreover have "q' \<in> set r" unfolding e' by simp
  ultimately have "\<exists>c\<in>set (drop 15 (l @ d @ r)). isquote c" using q' by auto
  with begins_append[OF l, of "d @ r"] show ?thesis by (rule assignment_at_closed)
qed

lemma first_assignment_complete:
  assumes rest: "assignment_at rest = Some v"
  shows "(if pre = [] then b else last pre = newline) \<Longrightarrow>
         (b \<longrightarrow> \<not> begins_assignment (hd (split_sep newline pre))) \<Longrightarrow>
         (\<forall>l\<in>set (tl (split_sep newline pre)). \<not> begins_assignment l) \<Longrightarrow>
         first_assignment b (pre @ rest) = Some v"
proof (induction pre arbitrary: b)
  case Nil
  then have b by simp
  from rest obtain c cs where "rest = c # cs"
    by (cases rest) (simp_all add: assignment_at_Nil)
  then show ?case using rest \<open>b\<close> by simp
next
  case (Cons c pre)
  have nl: "newline \<in> set (c # pre)"
    using Cons.prems(1) by (metis last_in_set list.discI)
  have hd_line: "hd (split_sep newline (c # pre)) = takeWhile (\<lambda>x. x \<noteq> newline) (c # pre)"
    by (rule hd_split_sep)
  have no_match: "(if b then assignment_at (c # pre @ rest) else None) = None"
  proof (cases b)
    case True
    then have "\<not> begins_assignment (takeWhile (\<lambda>x. x \<noteq> newline) (c # pre))"
      using Cons.prems(2) hd_line by simp
    then have "\<not> begins_assignment ((c # pre) @ rest)"
      using begins_first_line[OF _ nl] by blast
    then show ?thesis by (simp add: assignment_at_not_begins)
  next
    case False
    then show ?thesis by simp
  qed
  have start: "if pre = [] then c = newline else last pre = newline"
    using Cons.prems(1) by (auto split: if_splits)
  have "first_assignment (c = newline) (pre @ rest) = Some v"
  proof (rule Cons.IH[OF start])
    show "c = newline \<longrightarrow> \<not> begins_assignment (hd (split_sep newline pre))"
      using Cons.prems(3) set_split_sep[of newline pre] by (auto simp: split_sep_Cons_sep)
    show "\<forall>l\<in>set (tl (split_sep newline pre)). \<not> begins_assignment l"
    proof (cases "c = newline")
      case True
      then show ?thesis using Cons.prems(3) set_split_sep[of newline pre]
        by (auto simp: split_sep_Cons_sep)
    next
      case False
      then show ?thesis using Cons.prems(3)
        by (simp add: split_sep_Cons_other)
    qed
  qed
  then show ?case using no_match by simp
qed

lemma first_assignment_sound:
  "first_assignment b s = Some v \<Longrightarrow>
     \<exists>pre rest. s = pre @ rest \<and> (if pre = [] then b else last pre = newline) \<and>
        assignment_at rest = Some v \<and>
        (b \<longrightarrow> \<not> begins_assignment (hd (split_sep newline pre))) \<and>
        (\<forall>l\<in>set (tl (split_sep newline pre)). \<not> begins_assignment l)"
proof (induction s arbitrary: b)
  case Nil
  then show ?case by simp
next
  case (Cons c cs)
  show ?case
  proof (cases "if b then assignment_at (c # cs) else None")
    case (Some v')
    then have "b" "assignment_at (c # cs) = Some v" using Cons.prems by (auto split: if_splits)
    then have "c # cs = [] @ (c # cs) \<and> (if [] = ([]::string) then b else last [] = newline) \<and>
        assignment_at (c # cs) = Some v \<and>
        (b \<longrightarrow> \<not> begins_assignment (hd (split_sep newline []))) \<and>
        (\<forall>l\<in>set (tl (split_sep newline [])). \<not> begins_assignment l)"
      by (simp add: split_sep_def not_begins_Nil)
    then show ?thesis by blast
  next
    case None
    then have "first_assignment (c = newline) cs = Some v" using Cons.prems by simp
    from Cons.IH[OF this] obtain pre rest where
      cs: "cs = pre @ rest" and start: "if pre = [] then c = newline else last pre = newline"
      and rest: "assignment_at rest = Some v"
      and hdl: "c = newline \<longrightarrow> \<not> begins_assignment (hd (split_sep newline pre))"
      and tll: "\<forall>l\<in>set (tl (split_sep newline pre)). \<not> begins_assignment l"
      by blast
    have r_begins: "begins_assignment rest"
      using rest by (auto simp: assignment_at_def split: if_splits)
    have "last (c # pre) = newline" using start by (auto split: if_splits)
    moreover have "b \<longrightarrow> \<not> begins_assignment (hd (split_sep newline (c # pre)))"
    proof (intro impI notI)
      assume b and beg: "begins_assignment (hd (split_sep newline (c # pre)))"
      let ?L = "takeWhile (\<lambda>x. x \<noteq> newline) (c # pre)"
      let ?D = "dropWhile (\<lambda>x. x \<noteq> newline) (c # pre)"
      have "begins_assignment ?L"
        using beg unfolding hd_split_sep by simp
      then have "assignment_at (?L @ ?D @ rest) \<noteq> None"
        using r_begins by (rule begins_has_quote_later)
      moreover have "?L @ ?D @ rest = c # cs"
        unfolding cs by (metis append_Cons append_assoc takeWhile_dropWhile_id)
      ultimately show False using None \<open>b\<close> by simp
    qed
    moreover have "\<forall>l\<in>set (tl (split_sep newline (c # pre))). \<not> begins_assignment l"
    proof (cases "c = newline")
      case True
      then have "tl (split_sep newline (c # pre)) = split_sep newline pre"
        by (simp add: split_sep_Cons_sep)
      then show ?thesis using hdl tll True set_split_sep[of newline pre] by simp
    next
      case False
      then show ?thesis using tll by (simp add: split_sep_Cons_other)
    qed
    ultimately have "c # cs = (c # pre) @ rest \<and>
        (if c # pre = [] then b else last (c # pre) = newline) \<and>
        assignment_at rest = Some v \<and>
        (b \<longrightarrow> \<not> begins_assignment (hd (split_sep newline (c # pre)))) \<and>
        (\<forall>l\<in>set (tl (split_sep newline (c # pre))). \<not> begins_assignment l)"
      using cs rest by simp
    then show ?thesis by blast
  qed
qed
section \<open>Properties of \<^verbatim>\<open>find_version\<close>\<close>

lemma begins_takeWhile:
  assumes b: "begins_assignment r"
  shows "begins_assignment (takeWhile (\<lambda>c. c \<noteq> newline) r)"
proof -
  from b obtain q body where e: "r = (''__version__ = '' @ [q]) @ body" and q: "isquote q"
    unfolding begins_assignment_iff by auto
  have pnl: "\<forall>c\<in>set (''__version__ = '' @ [q]). c \<noteq> newline"
    using q newline_not_quote by (auto simp: newline_def)
  have "takeWhile (\<lambda>c. c \<noteq> newline) r =
        (''__version__ = '' @ [q]) @ takeWhile (\<lambda>c. c \<noteq> newline) body"
    unfolding e by (rule takeWhile_append2) (use pnl in blast)
  then have "takeWhile (\<lambda>c. c \<noteq> newline) r =
        ''__version__ = '' @ q # takeWhile (\<lambda>c. c \<noteq> newline) body"
    by simp
  with q show ?thesis unfolding begins_assignment_iff by blast
qed

lemma first_assignment_iff:
  "first_assignment True s = Some v \<longleftrightarrow>
     (\<exists>pre q1 q2 post. s = pre @ ''__version__ = '' @ [q1] @ v @ [q2] @ post \<and>
        at_line_start pre \<and> isquote q1 \<and> isquote q2 \<and> (\<forall>c\<in>set v. \<not> isquote c) \<and>
        (\<forall>l\<in>set (split_sep newline pre). \<not> begins_assignment l))"
proof
  assume "first_assignment True s = Some v"
  from first_assignment_sound[OF this] obtain pre rest where
    s: "s = pre @ rest" and st: "if pre = [] then True else last pre = newline"
    and rest: "assignment_at rest = Some v"
    and hdl: "\<not> begins_assignment (hd (split_sep newline pre))"
    and tll: "\<forall>l\<in>set (tl (split_sep newline pre)). \<not> begins_assignment l"
    by blast
  from rest obtain q1 q2 post where
    r: "rest = ''__version__ = '' @ [q1] @ v @ [q2] @ post" and q: "isquote q1" "isquote q2"
    and v: "\<forall>c\<in>set v. \<not> isquote c"
    unfolding assignment_at_Some_iff by blast
  have "at_line_start pre" using st by (auto simp: at_line_start_def split: if_splits)
  moreover have "\<forall>l\<in>set (split_sep newline pre). \<not> begins_assignment l"
    using hdl tll set_split_sep[of newline pre] by simp
  ultimately show "\<exists>pre q1 q2 post. s = pre @ ''__version__ = '' @ [q1] @ v @ [q2] @ post \<and>
        at_line_start pre \<and> isquote q1 \<and> isquote q2 \<and> (\<forall>c\<in>set v. \<not> isquote c) \<and>
        (\<forall>l\<in>set (split_sep newline pre). \<not> begins_assignment l)"
    using s r q v by blast
next
  assume "\<exists>pre q1 q2 post. s = pre @ ''__version__ = '' @ [q1] @ v @ [q2] @ post \<and>
        at_line_start pre \<and> isquote q1 \<and> isquote q2 \<and> (\<forall>c\<in>set v. \<not> isquote c) \<and>
        (\<forall>l\<in>set (split_sep newline pre). \<not> begins_assignment l)"
  then obtain pre q1 q2 post where
    s: "s = pre @ (''__version__ = '' @ [q1] @ v @ [q2] @ post)"
    and st: "at_line_start pre" and q: "isquote q1" "isquote q2"
    and v: "\<forall>c\<in>set v. \<not> isquote c"
    and ls: "\<forall>l\<in>set (split_sep newline pre). \<not> begins_assignment l"
    by blast
  have rest: "assignment_at (''__version__ = '' @ [q1] @ v @ [q2] @ post) = Some v"
    unfolding assignment_at_Some_iff using q v by blast
  have "first_assignment True (pre @ (''__version__ = '' @ [q1] @ v @ [q2] @ post)) = Some v"
  proof (rule first_assignment_complete[OF rest])
    show "if pre = [] then True else last pre = newline"
      using st by (auto simp: at_line_start_def)
    show "True \<longrightarrow> \<not> begins_assignment (hd (split_sep newline pre))"
      using ls set_split_sep[of newline pre] by simp
    show "\<forall>l\<in>set (tl (split_sep newline pre)). \<not> begins_assignment l"
      using ls set_split_sep[of newline pre] by simp
  qed
  then show "first_assignment True s = Some v" unfolding s .
qed

lemma first_assignment_line_begins:
  assumes "first_assignment True s = Some v"
  shows "\<exists>l\<in>set (split_sep newline s). begins_assignment l"
proof -
  from first_assignment_sound[OF assms] obtain pre rest where
    s: "s = pre @ rest" and st: "if pre = [] then True else last pre = newline"
    and rest: "assignment_at rest = Some v"
    by blast
  have rb: "begins_assignment rest"
    using rest by (auto simp: assignment_at_def split: if_splits)
  have hb: "begins_assignment (hd (split_sep newline rest))"
    unfolding hd_split_sep using rb by (rule begins_takeWhile)
  have hin: "hd (split_sep newline rest) \<in> set (split_sep newline rest)"
    using set_split_sep[of newline rest] by simp
  show ?thesis
  proof (cases "pre = []")
    case True
    then show ?thesis using s hb hin by auto
  next
    case False
    then obtain pre0 where p: "pre = pre0 @ [newline]"
      using st by (metis append_butlast_last_id)
    have "split_sep newline s = split_sep newline pre0 @ split_sep newline rest"
      unfolding s p split_sep_def using split_where_append_sep[of "\<lambda>c. c = newline" newline pre0 rest]
      by simp
    then show ?thesis using hb hin by auto
  qed
qed

text \<open>
  C8. \<^verbatim>\<open>find_version\<close> returns \<open>v\<close> exactly when the file splits into a part \<open>pre\<close>
  that ends a line (or is empty), the assignment \<^verbatim>\<open>__version__ = \<close>, a quote, \<open>v\<close> free of
  quotes, a quote, and a rest, where no line of \<open>pre\<close> begins such an assignment: the
  match starts at the start of a line and it is the first such line. When no line of the
  file begins with the assignment, as when every assignment is preceded by whitespace or
  other characters on its line, nothing is matched and \<^verbatim>\<open>RuntimeError\<close> is raised.
\<close>

theorem find_version_first_line_start:
  assumes "read_text w p = Inr contents"
  shows "(snd (find_version w p) = Inr (Some v)) =
           (\<exists>pre q1 q2 post.
              contents = pre @ ''__version__ = '' @ [q1] @ v @ [q2] @ post \<and>
              at_line_start pre \<and> isquote q1 \<and> isquote q2 \<and> (\<forall>c\<in>set v. \<not> isquote c) \<and>
              (\<forall>l\<in>set (split_sep newline pre). \<not> begins_assignment l))
         \<and> ((\<forall>l\<in>set (split_sep newline contents). \<not> begins_assignment l) \<longrightarrow>
              snd (find_version w p) = Inl RuntimeError)"
proof -
  have r: "snd (find_version w p) =
      (case first_assignment True contents of None \<Rightarrow> Inl RuntimeError | Some v \<Rightarrow> Inr (Some v))"
    unfolding find_version_eq using assms by simp
  have "(snd (find_version w p) = Inr (Some v)) = (first_assignment True contents = Some v)"
    unfolding r by (cases "first_assignment True contents") simp_all
  moreover have "snd (find_version w p) = Inl RuntimeError"
    if "\<forall>l\<in>set (split_sep newline contents). \<not> begins_assignment l"
  proof (cases "first_assignment True contents")
    case None
    then show ?thesis unfolding r by simp
  next
    case (Some v')
    from first_assignment_line_begins[OF this] that show ?thesis by blast
  qed
  ultimately show ?thesis unfolding first_assignment_iff by blast
qed

text \<open>
  C2, as amended. When the file holds a line \<^verbatim>\<open>__version__ = "v"\<close> and no earlier line
  begins with \<^verbatim>\<open>__version__ = \<close> and a quote, \<^verbatim>\<open>find_version\<close> returns exactly \<open>v\<close>. When
  the file holds no version literal at the start of any line, it raises \<^verbatim>\<open>RuntimeError\<close>
  and returns nothing.
\<close>

theorem find_version_first_literal:
  assumes "read_text w p = Inr contents"
  shows "(contents = pre @ ''__version__ = \"'' @ v @ ''\"'' @ post \<and> at_line_start pre \<and>
          (\<forall>c\<in>set v. \<not> isquote c) \<and>
          (\<forall>l\<in>set (split_sep newline pre). \<not> begins_assignment l) \<longrightarrow>
            find_version w p = ([OpenRead p], Inr (Some v)))
       \<and> (\<not> (\<exists>pre' q1 v' q2 post'.
                contents = pre' @ ''__version__ = '' @ [q1] @ v' @ [q2] @ post' \<and>
                at_line_start pre' \<and> isquote q1 \<and> isquote q2 \<and> (\<forall>c\<in>set v'. \<not> isquote c)) \<longrightarrow>
            find_version w p = ([OpenRead p], Inl RuntimeError))"
proof (intro conjI impI)
  have r: "find_version w p = ([OpenRead p],
      case first_assignment True contents of None \<Rightarrow> Inl RuntimeError | Some v \<Rightarrow> Inr (Some v))"
    unfolding find_version_eq using assms by simp
  {
    assume h: "contents = pre @ ''__version__ = \"'' @ v @ ''\"'' @ post \<and> at_line_start pre \<and>
          (\<forall>c\<in>set v. \<not> isquote c) \<and>
          (\<forall>l\<in>set (split_sep newline pre). \<not> begins_assignment l)"
    have dq: "isquote (CHR 0x22)" by (simp add: isquote_def)
    from h have "contents = pre @ ''__version__ = '' @ [CHR 0x22] @ v @ [CHR 0x22] @ post"
      by simp
    with h dq have "first_assignment True contents = Some v"
      unfolding first_assignment_iff by blast
    then show "find_version w p = ([OpenRead p], Inr (Some v))" unfolding r by simp
  }
  {
    assume n: "\<not> (\<exists>pre' q1 v' q2 post'.
                contents = pre' @ ''__version__ = '' @ [q1] @ v' @ [q2] @ post' \<and>
                at_line_start pre' \<and> isquote q1 \<and> isquote q2 \<and> (\<forall>c\<in>set v'. \<not> isquote c))"
    have "first_assignment True contents = None"
    proof (cases "first_assignment True contents")
      case (Some v')
      then show ?thesis using n unfolding first_assignment_iff by blast
    qed simp
    then show "find_version w p = ([OpenRead p], Inl RuntimeError)" unfolding r by simp
  }
qed

theorem find_version_first_literal_witness:
  "find_version (demo_world None [] [(''v.py'', ''# flute'' @ [newline] @ ''__version__ = \"1.0.0\"'' @ [newline])] None []) ''v.py''
     = ([OpenRead ''v.py''], Inr (Some ''1.0.0''))
   \<and> find_version (demo_world None [] [(''v.py'', ''version = 1'')] None []) ''v.py''
     = ([OpenRead ''v.py''], Inl RuntimeError)"
proof
  let ?c1 = "''# flute'' @ [newline] @ ''__version__ = \"1.0.0\"'' @ [newline]"
  let ?W1 = "demo_world None [] [(''v.py'', ?c1)] None []"
  have r1: "read_text ?W1 ''v.py'' = Inr ?c1"
    by (simp add: demo_world_def)
  have h1: "?c1 = (''# flute'' @ [newline]) @ ''__version__ = \"'' @ ''1.0.0'' @ ''\"'' @ [newline] \<and>
      at_line_start (''# flute'' @ [newline]) \<and> (\<forall>c\<in>set ''1.0.0''. \<not> isquote c) \<and>
      (\<forall>l\<in>set (split_sep newline (''# flute'' @ [newline])). \<not> begins_assignment l)"
    by (simp add: at_line_start_def isquote_def split_sep_def begins_assignment_def
          startswith_def newline_def)
  show "find_version ?W1 ''v.py'' = ([OpenRead ''v.py''], Inr (Some ''1.0.0''))"
    using find_version_first_literal[OF r1, of "''# flute'' @ [newline]" "''1.0.0''" "[newline]"] h1
    by blast
next
  let ?c2 = "''version = 1''"
  let ?W2 = "demo_world None [] [(''v.py'', ?c2)] None []"
  have r2: "read_text ?W2 ''v.py'' = Inr ?c2"
    by (simp add: demo_world_def)
  have h2: "\<not> (\<exists>pre' q1 v' q2 post'.
                ?c2 = pre' @ ''__version__ = '' @ [q1] @ v' @ [q2] @ post' \<and>
                at_line_start pre' \<and> isquote q1 \<and> isquote q2 \<and> (\<forall>c\<in>set v'. \<not> isquote c))"
  proof
    assume "\<exists>pre' q1 v' q2 post'.
                ?c2 = pre' @ ''__version__ = '' @ [q1] @ v' @ [q2] @ post' \<and>
                at_line_start pre' \<and> isquote q1 \<and> isquote q2 \<and> (\<forall>c\<in>set v'. \<not> isquote c)"
    then obtain pre' q1 v' q2 post' where
      "?c2 = pre' @ ''__version__ = '' @ [q1] @ v' @ [q2] @ post'" by blast
    then have "length ?c2 = length (pre' @ ''__version__ = '' @ [q1] @ v' @ [q2] @ post')"
      by (rule arg_cong)
    then show False by simp
  qed
  show "find_version ?W2 ''v.py'' = ([OpenRead ''v.py''], Inl RuntimeError)"
    using find_version_first_literal[OF r2] h2 by blast
qed

text \<open>
  C2 as stated fails: a file with two assignment lines holds the line
  \<^verbatim>\<open>__version__ = "1.0.0"\<close>, and \<^verbatim>\<open>find_version\<close> returns \<^verbatim>\<open>0.1\<close> from the line before it.
\<close>

theorem find_version_second_literal_counterexample:
  "read_text (demo_world None [] [(''v.py'', ''__version__ = \"0.1\"'' @ [newline] @ ''__version__ = \"1.0.0\"'')] None []) ''v.py''
     = Inr (''__version__ = \"0.1\"'' @ [newline] @ ''__version__ = \"1.0.0\"'')
   \<and> find_version (demo_world None [] [(''v.py'', ''__version__ = \"0.1\"'' @ [newline] @ ''__version__ = \"1.0.0\"'')] None []) ''v.py''
     = ([OpenRead ''v.py''], Inr (Some ''0.1''))"
  by code_simp

theorem find_version_first_line_start_witness:
  "snd (find_version (demo_world None [] [(''v.py'', ''# flute'' @ [newline] @ ''__version__ = '1.0.0'' @ [CHR 0x27, newline] @ ''__version__ = \"2.0\"'')] None []) ''v.py'')
     = Inr (Some ''1.0.0'')
   \<and> snd (find_version (demo_world None [] [(''v.py'', ''  __version__ = \"1.0.0\"'')] None []) ''v.py'')
     = Inl RuntimeError"
proof
  let ?c1 = "''# flute'' @ [newline] @ ''__version__ = '1.0.0'' @ [CHR 0x27, newline] @ ''__version__ = \"2.0\"''"
  let ?W1 = "demo_world None [] [(''v.py'', ?c1)] None []"
  have r1: "read_text ?W1 ''v.py'' = Inr ?c1"
    by (simp add: demo_world_def)
  have h1: "?c1 = (''# flute'' @ [newline]) @ ''__version__ = '' @ [CHR 0x27] @ ''1.0.0'' @ [CHR 0x27] @ (newline # ''__version__ = \"2.0\"'') \<and>
      at_line_start (''# flute'' @ [newline]) \<and> isquote (CHR 0x27) \<and> isquote (CHR 0x27) \<and>
      (\<forall>c\<in>set ''1.0.0''. \<not> isquote c) \<and>
      (\<forall>l\<in>set (split_sep newline (''# flute'' @ [newline])). \<not> begins_assignment l)"
    by (simp add: at_line_start_def isquote_def split_sep_def begins_assignment_def
          startswith_def newline_def)
  show "snd (find_version ?W1 ''v.py'') = Inr (Some ''1.0.0'')"
    using find_version_first_line_start[OF r1, of "''1.0.0''"] h1 by blast
next
  let ?c3 = "''  __version__ = \"1.0.0\"''"
  let ?W3 = "demo_world None [] [(''v.py'', ?c3)] None []"
  have r3: "read_text ?W3 ''v.py'' = Inr ?c3"
    by (simp add: demo_world_def)
  have h3: "\<forall>l\<in>set (split_sep newline ?c3). \<not> begins_assignment l"
    by (simp add: split_sep_def begins_assignment_def startswith_def newline_def)
  show "snd (find_version ?W3 ''v.py'') = Inl RuntimeError"
    using find_version_first_line_start[OF r3] h3 by blast
qed
section \<open>Properties of \<^verbatim>\<open>get_nvcc_cuda_version\<close>\<close>

lemma index_first: "x \<notin> set pre \<Longrightarrow> index (pre @ x # post) x = Some (length pre)"
  by (induction pre) auto

lemma item_after: "item (pre @ x # y # post) (length pre + 1) = Some y"
  by (simp add: item_def nth_append)

lemma item_0_split_sep: "item (split_sep sep (s @ sep # r)) 0 = Some (hd (split_sep sep s))"
proof -
  have "split_sep sep (s @ sep # r) = split_sep sep s @ split_sep sep r"
    unfolding split_sep_def by (rule split_where_append_sep) simp
  moreover have "split_sep sep s \<noteq> []"
    by (simp add: split_sep_def split_where_nonempty)
  ultimately show ?thesis
    by (cases "split_sep sep s") (simp_all add: item_def)
qed

lemma parse_12_1:
  "parse ''12.1'' = Inr \<lparr>v_epoch = 0, v_release = [12, 1], v_pre = None, v_post = None,
                          v_dev = None, v_local = None\<rparr>"
  by code_simp

text \<open>
  C3, as amended. When the first token \<^verbatim>\<open>release\<close> of the text that \<^verbatim>\<open>nvcc -V\<close> prints is
  followed by a token that starts with \<^verbatim>\<open>12.1,\<close>, \<^verbatim>\<open>get_nvcc_cuda_version\<close> returns the
  version 12.1: the token after \<^verbatim>\<open>release\<close>, cut at its first comma, parsed as a version.
\<close>

theorem get_nvcc_cuda_version_first_release:
  assumes home: "CUDA_HOME w = Some home"
    and out: "check_output w [path_join home [''bin/nvcc''], ''-V''] = Inr out"
    and toks: "split_ws out = pre @ ''release'' # (''12.1,'' @ rest) # post"
    and first: "''release'' \<notin> set pre"
  shows "get_nvcc_cuda_version w =
           ([Subprocess [path_join home [''bin/nvcc''], ''-V'']],
            Inr \<lparr>v_epoch = 0, v_release = [12, 1], v_pre = None, v_post = None,
                  v_dev = None, v_local = None\<rparr>)"
proof -
  have i: "index (split_ws out) ''release'' = Some (length pre)"
    unfolding toks using first by (rule index_first)
  have t: "item (split_ws out) (length pre + 1) = Some (''12.1,'' @ rest)"
    unfolding toks by (rule item_after)
  have "item (split_sep CHR '','' (''12.1'' @ CHR '','' # rest)) 0 = Some (hd (split_sep CHR '','' ''12.1''))"
    by (rule item_0_split_sep)
  then have x: "item (split_sep CHR '','' (''12.1,'' @ rest)) 0 = Some ''12.1''"
    by (simp add: split_sep_def)
  show ?thesis
    unfolding get_nvcc_cuda_version_def
    using t x by (simp add: home out run_check_output_def eff_bind_def i parse_12_1 ret_def)
qed


theorem get_nvcc_cuda_version_first_release_witness:
  "get_nvcc_cuda_version (demo_world (Some ''/usr/local/cuda'') nvcc_12_1_output [] None [])
     = ([Subprocess [''/usr/local/cuda/bin/nvcc'', ''-V'']],
        Inr \<lparr>v_epoch = 0, v_release = [12, 1], v_pre = None, v_post = None,
              v_dev = None, v_local = None\<rparr>)"
proof -
  let ?W = "demo_world (Some ''/usr/local/cuda'') nvcc_12_1_output [] None []"
  have home: "CUDA_HOME ?W = Some ''/usr/local/cuda''"
    by (simp add: demo_world_def)
  have out: "check_output ?W [path_join ''/usr/local/cuda'' [''bin/nvcc''], ''-V''] = Inr nvcc_12_1_output"
    by (simp add: demo_world_def)
  have toks: "split_ws nvcc_12_1_output =
      [''nvcc:'', ''NVIDIA'', ''(R)'', ''Cuda'', ''compiler'', ''driver'', ''Copyright'', ''(c)'',
       ''2005-2023'', ''NVIDIA'', ''Corporation'', ''Built'', ''on'',
       ''Mon_Apr__3_17:16:06_PDT_2023'', ''Cuda'', ''compilation'', ''tools,'']
      @ ''release'' # (''12.1,'' @ []) # [''V12.1.105'', ''Build'', ''cuda_12.1.r12.1/compiler.32688072_0'']"
    by code_simp
  have first: "''release'' \<notin> set [''nvcc:'', ''NVIDIA'', ''(R)'', ''Cuda'', ''compiler'', ''driver'',
       ''Copyright'', ''(c)'', ''2005-2023'', ''NVIDIA'', ''Corporation'', ''Built'', ''on'',
       ''Mon_Apr__3_17:16:06_PDT_2023'', ''Cuda'', ''compilation'', ''tools,'']"
    by simp
  have p: "path_join ''/usr/local/cuda'' [''bin/nvcc''] = ''/usr/local/cuda/bin/nvcc''"
    by code_simp
  show ?thesis
    using get_nvcc_cuda_version_first_release[OF home out toks first] unfolding p .
qed

text \<open>
  C3 as stated fails: the text holds the token \<^verbatim>\<open>release\<close> followed by \<^verbatim>\<open>12.1,\<close>, but an
  earlier token \<^verbatim>\<open>release\<close> is followed by \<^verbatim>\<open>notes:\<close>, which is no version.
\<close>

theorem get_nvcc_cuda_version_later_release_counterexample:
  "split_ws ''nvcc release notes: release 12.1, V12.1.105''
     = [''nvcc'', ''release'', ''notes:'', ''release'', ''12.1,'', ''V12.1.105'']
   \<and> get_nvcc_cuda_version
        (demo_world (Some ''/usr/local/cuda'') ''nvcc release notes: release 12.1, V12.1.105'' [] None [])
     = ([Subprocess [''/usr/local/cuda/bin/nvcc'', ''-V'']], Inl InvalidVersion)"
  by code_simp
section \<open>Properties of \<^verbatim>\<open>get_version\<close>\<close>

lemma isdigit_digit_char: "d < 10 \<Longrightarrow> isdigit (digit_char d)"
proof -
  assume "d < 10"
  then have "d = 0 \<or> d = 1 \<or> d = 2 \<or> d = 3 \<or> d = 4 \<or> d = 5 \<or> d = 6 \<or> d = 7 \<or> d = 8 \<or> d = 9"
    by arith
  then show ?thesis
    by (elim disjE) (simp_all add: digit_char_def isdigit_def)
qed

lemma str_nat_digits: "str_nat n \<noteq> [] \<and> list_all isdigit (str_nat n)"
proof (induction n rule: str_nat.induct)
  case (1 n)
  show ?case
  proof (cases "n < 10")
    case True
    then show ?thesis by (simp add: isdigit_digit_char)
  next
    case False
    then have "str_nat n = str_nat (n div 10) @ [digit_char (n mod 10)]"
      by (subst str_nat.simps) simp
    moreover have "isdigit (digit_char (n mod 10))"
      by (rule isdigit_digit_char) simp
    ultimately show ?thesis using 1[OF False] by simp
  qed
qed

lemma str_nat_two_digits:
  assumes "10 \<le> n" "n < 100"
  shows "str_nat n = [digit_char (n div 10), digit_char (n mod 10)]"
proof -
  have "str_nat n = str_nat (n div 10) @ [digit_char (n mod 10)]"
    using assms by (subst str_nat.simps) simp
  moreover have "str_nat (n div 10) = [digit_char (n div 10)]"
    using assms by (subst str_nat.simps) simp
  ultimately show ?thesis by simp
qed

lemma isdigit_not_dot: "isdigit c \<Longrightarrow> c \<noteq> CHR ''.''"
  by (auto simp: isdigit_def)

lemma replace_append: "replace c new (xs @ ys) = replace c new xs @ replace c new ys"
  by (simp add: replace_def)

lemma replace_digits: "list_all isdigit s \<Longrightarrow> replace CHR ''.'' [] s = s"
  by (induction s) (auto simp: replace_def dest: isdigit_not_dot)

lemma join_Cons2: "join sep (x # y # ys) = x @ sep @ join sep (y # ys)"
  by simp

lemma join_Cons_prefix: "\<exists>z. join sep (y # ys) = y @ z"
  by (cases ys) simp_all

lemma cuda_tag_three_digits:
  assumes e: "v_epoch cuda = 0" and l: "2 \<le> length (v_release cuda)"
    and lo: "10 \<le> major cuda" and hi: "major cuda < 100"
  shows "length (take 3 (replace CHR ''.'' [] (version_str cuda))) = 3 \<and>
         list_all isdigit (take 3 (replace CHR ''.'' [] (version_str cuda)))"
proof -
  from l obtain a b r where rel: "v_release cuda = a # b # r"
    by (cases "v_release cuda"; cases "tl (v_release cuda)") auto
  have a: "10 \<le> a" "a < 100" using lo hi rel by (simp_all add: major_def)
  obtain z where z: "join ''.'' (map str_nat (b # r)) = str_nat b @ z"
    using join_Cons_prefix[of "''.''" "str_nat b" "map str_nat r"] by auto
  obtain d ds where b: "str_nat b = d # ds" and d: "isdigit d"
    using str_nat_digits[of b] by (cases "str_nat b") auto
  let ?A = "[digit_char (a div 10), digit_char (a mod 10)]"
  have A: "list_all isdigit ?A"
    using a by (simp add: isdigit_digit_char)
  obtain tail where vs: "version_str cuda = ?A @ ''.'' @ (d # ds) @ tail"
    unfolding version_str_def e rel using z b str_nat_two_digits[OF a]
    by (simp add: join_Cons2 del: join.simps)
  have "replace CHR ''.'' [] (version_str cuda) =
          ?A @ d # replace CHR ''.'' [] (ds @ tail)"
    unfolding vs replace_append using replace_digits[OF A] d
    by (simp add: replace_def isdigit_not_dot)
  then have "take 3 (replace CHR ''.'' [] (version_str cuda)) = ?A @ [d]"
    by simp
  then show ?thesis using A d by simp
qed

lemma get_version_eq:
  assumes "find_version w (get_path w [LIBRARY_NAME, ''__init__.py'']) = (t1, Inr (Some base))"
    and "get_nvcc_cuda_version w = (t2, Inr cuda)"
    and "parse (torch_version w) = Inr torch"
  shows "get_version w =
           (t1 @ t2,
            Inr (base @ ''+cu'' @ take 3 (replace CHR ''.'' [] (version_str cuda)) @ ''torch'' @
                 str_nat (major torch) @ ''.'' @ str_nat (minor torch)))"
  unfolding get_version_def using assms
  by (simp add: eff_bind_def ret_def Let_def)

text \<open>
  C1, as amended. When the version file, the CUDA compiler and the framework version are
  read without error, \<^verbatim>\<open>get_version\<close> returns the base version, \<^verbatim>\<open>+cu\<close>, the first three
  characters (fewer when there are fewer) of the CUDA version without its dots,
  \<^verbatim>\<open>torch\<close>, and the major and minor number of the framework version joined by a dot.
  The part after \<^verbatim>\<open>+cu\<close> is three digits whenever the CUDA version has no epoch, a major
  number of two digits and a minor number.
\<close>

theorem get_version_suffix:
  assumes "find_version w (get_path w [LIBRARY_NAME, ''__init__.py'']) = (t1, Inr (Some base))"
    and "get_nvcc_cuda_version w = (t2, Inr cuda)"
    and "parse (torch_version w) = Inr torch"
  shows "get_version w =
           (t1 @ t2,
            Inr (base @ ''+cu'' @ take 3 (replace CHR ''.'' [] (version_str cuda)) @ ''torch'' @
                 str_nat (major torch) @ ''.'' @ str_nat (minor torch)))
       \<and> (v_epoch cuda = 0 \<and> 2 \<le> length (v_release cuda) \<and> 10 \<le> major cuda \<and> major cuda < 100 \<longrightarrow>
            length (take 3 (replace CHR ''.'' [] (version_str cuda))) = 3 \<and>
            list_all isdigit (take 3 (replace CHR ''.'' [] (version_str cuda))))"
  using get_version_eq[OF assms] cuda_tag_three_digits[of cuda] by blast


theorem get_version_suffix_witness:
  "get_version (demo_world (Some ''/usr/local/cuda'') nvcc_12_1_output
                  [(''flute/__init__.py'', ''__version__ = \"1.0.0\"'' @ [newline])] None ''2.3.1'')
     = ([OpenRead ''flute/__init__.py'', Subprocess [''/usr/local/cuda/bin/nvcc'', ''-V'']],
        Inr ''1.0.0+cu121torch2.3'')
   \<and> length (take 3 (replace CHR ''.'' []
         (version_str \<lparr>v_epoch = 0, v_release = [12, 1], v_pre = None, v_post = None,
                       v_dev = None, v_local = None\<rparr>))) = 3"
proof -
  let ?W = "demo_world (Some ''/usr/local/cuda'') nvcc_12_1_output
                  [(''flute/__init__.py'', ''__version__ = \"1.0.0\"'' @ [newline])] None ''2.3.1''"
  let ?cuda = "\<lparr>v_epoch = 0, v_release = [12, 1], v_pre = None, v_post = None,
                v_dev = None, v_local = None\<rparr>"
  let ?torch = "\<lparr>v_epoch = 0, v_release = [2, 3, 1], v_pre = None, v_post = None,
                 v_dev = None, v_local = None\<rparr>"
  have h1: "find_version ?W (get_path ?W [LIBRARY_NAME, ''__init__.py''])
              = ([OpenRead ''flute/__init__.py''], Inr (Some ''1.0.0''))"
    by code_simp
  have h2: "get_nvcc_cuda_version ?W
              = ([Subprocess [''/usr/local/cuda/bin/nvcc'', ''-V'']], Inr ?cuda)"
    by code_simp
  have h3: "parse (torch_version ?W) = Inr ?torch"
    by code_simp
  have ev: "''1.0.0'' @ ''+cu'' @ take 3 (replace CHR ''.'' [] (version_str ?cuda)) @ ''torch'' @
              str_nat (major ?torch) @ ''.'' @ str_nat (minor ?torch) = ''1.0.0+cu121torch2.3''"
    by code_simp
  have hyp: "v_epoch ?cuda = 0 \<and> 2 \<le> length (v_release ?cuda) \<and> 10 \<le> major ?cuda \<and> major ?cuda < 100"
    by (simp add: major_def)
  note T = get_version_suffix[OF h1 h2 h3]
  from T have "get_version ?W =
      ([OpenRead ''flute/__init__.py''] @ [Subprocess [''/usr/local/cuda/bin/nvcc'', ''-V'']],
       Inr (''1.0.0'' @ ''+cu'' @ take 3 (replace CHR ''.'' [] (version_str ?cuda)) @ ''torch'' @
              str_nat (major ?torch) @ ''.'' @ str_nat (minor ?torch)))"
    by (rule conjunct1)
  then have a: "get_version ?W =
      ([OpenRead ''flute/__init__.py'', Subprocess [''/usr/local/cuda/bin/nvcc'', ''-V'']],
       Inr ''1.0.0+cu121torch2.3'')"
    unfolding ev by simp
  from T hyp have b: "length (take 3 (replace CHR ''.'' [] (version_str ?cuda))) = 3"
    by blast
  from a b show ?thesis by (rule conjI)
qed

text \<open>
  C1 as stated fails: for the CUDA version 9.0 that \<^verbatim>\<open>nvcc\<close> of CUDA 9.0 reports, the part
  after \<^verbatim>\<open>+cu\<close> has two digits.
\<close>

theorem get_version_cuda_9_counterexample:
  "get_version (demo_world (Some ''/usr/local/cuda'')
                  ''Cuda compilation tools, release 9.0, V9.0.176''
                  [(''flute/__init__.py'', ''__version__ = \"1.0.0\"'' @ [newline])] None ''2.3.1'')
     = ([OpenRead ''flute/__init__.py'', Subprocess [''/usr/local/cuda/bin/nvcc'', ''-V'']],
        Inr ''1.0.0+cu90torch2.3'')"
  by code_simp
section \<open>The order of failures in the script\<close>

lemma get_version_no_cuda:
  assumes "CUDA_HOME w = None"
  shows "get_version w =
     ([OpenRead (get_path w [LIBRARY_NAME, ''__init__.py''])],
      case snd (find_version w (get_path w [LIBRARY_NAME, ''__init__.py''])) of
        Inl e \<Rightarrow> Inl e
      | Inr _ \<Rightarrow> Inl AssertionError)"
proof -
  let ?p = "get_path w [LIBRARY_NAME, ''__init__.py'']"
  have probe: "get_nvcc_cuda_version w = ([], Inl AssertionError)"
    using assms by (simp add: get_nvcc_cuda_version_def raise_def)
  obtain r where f: "find_version w ?p = ([OpenRead ?p], r)"
    unfolding find_version_eq by blast
  show ?thesis
    unfolding get_version_def f probe
    by (cases r) (simp_all add: eff_bind_def)
qed

text \<open>
  C7. When \<open>CUDA_HOME\<close> is unset, \<^verbatim>\<open>get_nvcc_cuda_version\<close> raises \<^verbatim>\<open>AssertionError\<close> at
  once, before it runs any subprocess; the script then ends in an exception with no
  \<^verbatim>\<open>glob\<close> call in its trace, and the exception is this \<^verbatim>\<open>AssertionError\<close> whenever the
  version file could be read.
\<close>

theorem cuda_home_unset_fails_before_glob:
  assumes "CUDA_HOME w = None"
  shows "get_nvcc_cuda_version w = ([], Inl AssertionError)
       \<and> (\<exists>t e. setup_script w = (t, Inl e) \<and> list_all (\<lambda>ev. \<not> is_glob ev) t)
       \<and> (\<forall>base. snd (find_version w (get_path w [LIBRARY_NAME, ''__init__.py''])) = Inr base \<longrightarrow>
            (\<exists>t. setup_script w = (t, Inl AssertionError)))"
proof (intro conjI allI impI)
  let ?p = "get_path w [LIBRARY_NAME, ''__init__.py'']"
  show "get_nvcc_cuda_version w = ([], Inl AssertionError)"
    using assms by (simp add: get_nvcc_cuda_version_def raise_def)
  have s: "setup_script w =
      ([OpenRead ?p], case snd (find_version w ?p) of Inl e \<Rightarrow> Inl e | Inr _ \<Rightarrow> Inl AssertionError)"
    unfolding setup_script_def get_version_no_cuda[OF assms]
    by (cases "snd (find_version w ?p)") (simp_all add: eff_bind_def)
  show "\<exists>t e. setup_script w = (t, Inl e) \<and> list_all (\<lambda>ev. \<not> is_glob ev) t"
    unfolding s by (cases "snd (find_version w ?p)") (simp_all add: is_glob_def)
  show "\<exists>t. setup_script w = (t, Inl AssertionError)"
    if "snd (find_version w ?p) = Inr base" for base
    unfolding s using that by simp
qed

theorem cuda_home_unset_fails_before_glob_witness:
  "get_nvcc_cuda_version (demo_world None nvcc_12_1_output
       [(''flute/__init__.py'', ''__version__ = \"1.0.0\"'' @ [newline])] (Some [''a.cpp'']) ''2.3.1'')
     = ([], Inl AssertionError)
   \<and> setup_script (demo_world None nvcc_12_1_output
       [(''flute/__init__.py'', ''__version__ = \"1.0.0\"'' @ [newline])] (Some [''a.cpp'']) ''2.3.1'')
     = ([OpenRead ''flute/__init__.py''], Inl AssertionError)"
proof -
  let ?W = "demo_world None nvcc_12_1_output
       [(''flute/__init__.py'', ''__version__ = \"1.0.0\"'' @ [newline])] (Some [''a.cpp'']) ''2.3.1''"
  have h: "CUDA_HOME ?W = None"
    by (simp add: demo_world_def)
  have f: "snd (find_version ?W (get_path ?W [LIBRARY_NAME, ''__init__.py''])) = Inr (Some ''1.0.0'')"
    by code_simp
  note T = cuda_home_unset_fails_before_glob[OF h]
  from T have a: "get_nvcc_cuda_version ?W = ([], Inl AssertionError)"
    by (rule conjunct1)
  from T f obtain t where t: "setup_script ?W = (t, Inl AssertionError)"
    by blast
  have "fst (setup_script ?W) = [OpenRead ''flute/__init__.py'']"
    by code_simp
  with t have "t = [OpenRead ''flute/__init__.py'']" by simp
  with a t show ?thesis by simp
qed
section \<open>Properties of \<^verbatim>\<open>glob\<close> and \<^verbatim>\<open>get_extensions\<close>\<close>

lemma endswith_iff: "endswith s p \<longleftrightarrow> (\<exists>a. s = a @ p)"
proof
  assume "endswith s p"
  then have "length p \<le> length s" and d: "drop (length s - length p) s = p"
    by (simp_all add: endswith_def)
  have "s = take (length s - length p) s @ drop (length s - length p) s" by simp
  then have "s = take (length s - length p) s @ p" unfolding d .
  then show "\<exists>a. s = a @ p" ..
next
  assume "\<exists>a. s = a @ p"
  then show "endswith s p" by (auto simp: endswith_def)
qed

lemma fnmatch_literal:
  "CHR ''*'' \<notin> set ps \<Longrightarrow> CHR ''?'' \<notin> set ps \<Longrightarrow> fnmatch ps s = (s = ps)"
  by (induction ps s rule: fnmatch.induct) auto

lemma fnmatch_star_suffix:
  assumes "CHR ''*'' \<notin> set ps" "CHR ''?'' \<notin> set ps"
  shows "fnmatch (CHR ''*'' # ps) s = endswith s ps"
proof (induction s)
  case Nil
  show ?case using assms by (cases ps) (auto simp: fnmatch_literal endswith_iff)
next
  case (Cons c cs)
  have "fnmatch (CHR ''*'' # ps) (c # cs) = (fnmatch ps (c # cs) \<or> fnmatch (CHR ''*'' # ps) cs)"
    by simp
  also have "\<dots> = (c # cs = ps \<or> endswith cs ps)"
    using assms Cons.IH by (simp add: fnmatch_literal)
  also have "\<dots> = endswith (c # cs) ps"
    unfolding endswith_iff
  proof
    assume "c # cs = ps \<or> (\<exists>a. cs = a @ ps)"
    then show "\<exists>a. c # cs = a @ ps"
    proof
      assume "c # cs = ps"
      then have "c # cs = [] @ ps" by simp
      then show ?thesis ..
    next
      assume "\<exists>a. cs = a @ ps"
      then obtain a where "cs = a @ ps" ..
      then have "c # cs = (c # a) @ ps" by simp
      then show ?thesis ..
    qed
  next
    assume "\<exists>a. c # cs = a @ ps"
    then obtain a where a: "c # cs = a @ ps" ..
    show "c # cs = ps \<or> (\<exists>a. cs = a @ ps)"
    proof (cases a)
      case Nil
      then show ?thesis using a by simp
    next
      case (Cons x xs)
      then have "cs = xs @ ps" using a by simp
      then show ?thesis by blast
    qed
  qed
  finally show ?case .
qed

lemma path_join_one_suffix: "\<exists>a. path_join d [n] = a @ n"
proof -
  have "path_join d [n] = [] @ n \<or> path_join d [n] = d @ n \<or> path_join d [n] = (d @ ''/'') @ n"
    by (simp add: path_join_def)
  then show ?thesis by blast
qed

lemma endswith_path_join: "endswith n p \<Longrightarrow> endswith (path_join d [n]) p"
proof -
  assume "endswith n p"
  then obtain a where "n = a @ p" unfolding endswith_iff ..
  moreover obtain b where "path_join d [n] = b @ n" using path_join_one_suffix by blast
  ultimately have "path_join d [n] = (b @ a) @ p" by simp
  then show ?thesis unfolding endswith_iff ..
qed

lemma extensions_dir: "path_join (dirname ''.'') [LIBRARY_NAME, ''csrc''] = ''flute/csrc''"
  by code_simp

lemma cpp_pattern: "path_join ''flute/csrc'' [''*.cpp''] = ''flute/csrc/*.cpp''"
  by code_simp

lemma cu_pattern: "path_join ''flute/csrc'' [''*.cu''] = ''flute/csrc/*.cu''"
  by code_simp

lemma split_cpp_pattern: "path_split ''flute/csrc/*.cpp'' = (''flute/csrc'', ''*.cpp'')"
  by code_simp

lemma split_cu_pattern: "path_split ''flute/csrc/*.cu'' = (''flute/csrc'', ''*.cu'')"
  by code_simp

lemma glob_cpp_endswith:
  assumes "glob w ''flute/csrc/*.cpp'' = (t, Inr xs)" "x \<in> set xs"
  shows "endswith x ''.cpp''"
proof -
  from assms obtain n where n: "fnmatch ''*.cpp'' n" and x: "x = path_join ''flute/csrc'' [n]"
    unfolding glob_def split_cpp_pattern by (auto simp: Let_def)
  have "fnmatch (CHR ''*'' # ''.cpp'') n = endswith n ''.cpp''"
    by (rule fnmatch_star_suffix) simp_all
  with n have "endswith n ''.cpp''" by simp
  then show ?thesis unfolding x by (rule endswith_path_join)
qed

lemma glob_cu_endswith:
  assumes "glob w ''flute/csrc/*.cu'' = (t, Inr xs)" "x \<in> set xs"
  shows "endswith x ''.cu''"
proof -
  from assms obtain n where n: "fnmatch ''*.cu'' n" and x: "x = path_join ''flute/csrc'' [n]"
    unfolding glob_def split_cu_pattern by (auto simp: Let_def)
  have "fnmatch (CHR ''*'' # ''.cu'') n = endswith n ''.cu''"
    by (rule fnmatch_star_suffix) simp_all
  with n have "endswith n ''.cu''" by simp
  then show ?thesis unfolding x by (rule endswith_path_join)
qed

lemma cpp_not_cu: "endswith x ''.cpp'' \<Longrightarrow> \<not> endswith x ''.cu''"
proof
  assume "endswith x ''.cpp''" and "endswith x ''.cu''"
  then obtain a b where "x = a @ ''.cpp''" "x = b @ ''.cu''"
    unfolding endswith_iff by blast
  then have "last (a @ ''.cpp'') = last (b @ ''.cu'')" by simp
  then show False by simp
qed

lemma glob_total: "\<exists>xs. glob w pat = ([Glob pat], Inr xs)"
  by (simp add: glob_def Let_def split: prod.splits)

lemma get_extensions_eq:
  assumes "glob w ''flute/csrc/*.cpp'' = (t1, Inr cpp)" "glob w ''flute/csrc/*.cu'' = (t2, Inr cu)"
  shows "get_extensions w =
           (t1 @ t2,
            case CUDA_HOME w of
              None \<Rightarrow> Inl OSError
            | Some _ \<Rightarrow>
                Inr [\<lparr>name = ''flute._C'',
                       sources = cpp @ cu,
                       extra_compile_args =
                         [(''cxx'', [''-std=c++17'']),
                          (''nvcc'', [''-gencode=arch=compute_80,code=sm_80'',
                                     ''-gencode=arch=compute_86,code=sm_86'',
                                     ''-gencode=arch=compute_89,code=sm_89'',
                                     ''-gencode=arch=compute_90,code=sm_90'',
                                     ''-gencode=arch=compute_90,code=compute_90'',
                                     ''-std=c++17''])],
                       extra_link_args = [],
                       include_dirs = [''/workspace/cutlass/include'',
                                       ''/workspace/cutlass/tools/util/include'']\<rparr>])"
proof -
  have i1: "path_join CUTLASS_PATH [''include''] = ''/workspace/cutlass/include''"
    by code_simp
  have i2: "path_join CUTLASS_PATH [''tools/util/include''] = ''/workspace/cutlass/tools/util/include''"
    by code_simp
  have n: "LIBRARY_NAME @ ''._C'' = ''flute._C''"
    by (simp add: LIBRARY_NAME_def)
  show ?thesis
    unfolding get_extensions_def Let_def extensions_dir cpp_pattern cu_pattern assms i1 i2 n
    by (cases "CUDA_HOME w") (simp_all add: eff_bind_def ret_def raise_def CUDAExtension_def)
qed

lemma get_extensions_sources:
  assumes g1: "glob w ''flute/csrc/*.cpp'' = (t1, Inr cpp)"
    and g2: "glob w ''flute/csrc/*.cu'' = (t2, Inr cu)"
    and r: "snd (get_extensions w) = Inr exts" and e: "ext \<in> set exts"
  shows "sources ext = cpp @ cu"
  using r e unfolding get_extensions_eq[OF g1 g2]
  by (cases "CUDA_HOME w") auto

lemma glob_no_match:
  assumes "\<forall>names. listdir w ''flute/csrc'' = Some names \<longrightarrow>
             (\<forall>n\<in>set names. \<not> endswith n ''.cpp'' \<and> \<not> endswith n ''.cu'')"
  shows "glob w ''flute/csrc/*.cpp'' = ([Glob ''flute/csrc/*.cpp''], Inr [])"
    and "glob w ''flute/csrc/*.cu'' = ([Glob ''flute/csrc/*.cu''], Inr [])"
proof -
  have m1: "fnmatch ''*.cpp'' n = endswith n ''.cpp''" for n
    using fnmatch_star_suffix[of "''.cpp''" n] by simp
  have m2: "fnmatch ''*.cu'' n = endswith n ''.cu''" for n
    using fnmatch_star_suffix[of "''.cu''" n] by simp
  show "glob w ''flute/csrc/*.cpp'' = ([Glob ''flute/csrc/*.cpp''], Inr [])"
    unfolding glob_def split_cpp_pattern using assms
    by (cases "listdir w ''flute/csrc''") (auto simp: Let_def m1 filter_empty_conv)
  show "glob w ''flute/csrc/*.cu'' = ([Glob ''flute/csrc/*.cu''], Inr [])"
    unfolding glob_def split_cu_pattern using assms
    by (cases "listdir w ''flute/csrc''") (auto simp: Let_def m2 filter_empty_conv)
qed

text \<open>
  C6. Let \<open>CUDA_HOME\<close> be set, as it is whenever the script reaches \<^verbatim>\<open>get_extensions\<close>. When
  both patterns match nothing, and in particular when the directory \<^verbatim>\<open>flute/csrc\<close> cannot
  be listed or lists no name that ends in \<^verbatim>\<open>.cpp\<close> or \<^verbatim>\<open>.cu\<close>, \<^verbatim>\<open>get_extensions\<close> raises
  nothing and returns one extension whose source list is empty.
\<close>

theorem get_extensions_no_sources:
  assumes home: "CUDA_HOME w = Some home"
  shows "(snd (glob w ''flute/csrc/*.cpp'') = Inr [] \<and> snd (glob w ''flute/csrc/*.cu'') = Inr [] \<longrightarrow>
      (\<exists>ext. get_extensions w = ([Glob ''flute/csrc/*.cpp'', Glob ''flute/csrc/*.cu''], Inr [ext])
             \<and> sources ext = []))
   \<and> ((\<forall>names. listdir w ''flute/csrc'' = Some names \<longrightarrow>
          (\<forall>n\<in>set names. \<not> endswith n ''.cpp'' \<and> \<not> endswith n ''.cu'')) \<longrightarrow>
      (\<exists>ext. get_extensions w = ([Glob ''flute/csrc/*.cpp'', Glob ''flute/csrc/*.cu''], Inr [ext])
             \<and> sources ext = []))"
proof (intro conjI impI)
  assume "snd (glob w ''flute/csrc/*.cpp'') = Inr [] \<and> snd (glob w ''flute/csrc/*.cu'') = Inr []"
  then have "glob w ''flute/csrc/*.cpp'' = ([Glob ''flute/csrc/*.cpp''], Inr [])"
    and "glob w ''flute/csrc/*.cu'' = ([Glob ''flute/csrc/*.cu''], Inr [])"
    using glob_total[of w "''flute/csrc/*.cpp''"] glob_total[of w "''flute/csrc/*.cu''"] by auto
  from get_extensions_eq[OF this]
  show "\<exists>ext. get_extensions w = ([Glob ''flute/csrc/*.cpp'', Glob ''flute/csrc/*.cu''], Inr [ext])
             \<and> sources ext = []"
    using home by simp
next
  assume "\<forall>names. listdir w ''flute/csrc'' = Some names \<longrightarrow>
          (\<forall>n\<in>set names. \<not> endswith n ''.cpp'' \<and> \<not> endswith n ''.cu'')"
  from get_extensions_eq[OF glob_no_match[OF this]]
  show "\<exists>ext. get_extensions w = ([Glob ''flute/csrc/*.cpp'', Glob ''flute/csrc/*.cu''], Inr [ext])
             \<and> sources ext = []"
    using home by simp
qed

theorem get_extensions_no_sources_witness:
  "(\<exists>ext. get_extensions (demo_world (Some ''/usr/local/cuda'') [] [] None []) =
            ([Glob ''flute/csrc/*.cpp'', Glob ''flute/csrc/*.cu''], Inr [ext]) \<and> sources ext = [])
   \<and> (\<exists>ext. get_extensions (demo_world (Some ''/usr/local/cuda'') [] []
                               (Some [''README.md'', ''gemm.h'', ''.x.cu'']) []) =
            ([Glob ''flute/csrc/*.cpp'', Glob ''flute/csrc/*.cu''], Inr [ext]) \<and> sources ext = [])"
proof
  let ?W = "demo_world (Some ''/usr/local/cuda'') [] [] None []"
  have home: "CUDA_HOME ?W = Some ''/usr/local/cuda''"
    by (simp add: demo_world_def)
  have h: "\<forall>names. listdir ?W ''flute/csrc'' = Some names \<longrightarrow>
          (\<forall>n\<in>set names. \<not> endswith n ''.cpp'' \<and> \<not> endswith n ''.cu'')"
    by (simp add: demo_world_def)
  show "\<exists>ext. get_extensions ?W =
            ([Glob ''flute/csrc/*.cpp'', Glob ''flute/csrc/*.cu''], Inr [ext]) \<and> sources ext = []"
    using get_extensions_no_sources[OF home] h by blast
next
  let ?W = "demo_world (Some ''/usr/local/cuda'') [] [] (Some [''README.md'', ''gemm.h'', ''.x.cu'']) []"
  have home: "CUDA_HOME ?W = Some ''/usr/local/cuda''"
    by (simp add: demo_world_def)
  have h: "snd (glob ?W ''flute/csrc/*.cpp'') = Inr [] \<and> snd (glob ?W ''flute/csrc/*.cu'') = Inr []"
    by code_simp
  show "\<exists>ext. get_extensions ?W =
            ([Glob ''flute/csrc/*.cpp'', Glob ''flute/csrc/*.cu''], Inr [ext]) \<and> sources ext = []"
    using get_extensions_no_sources[OF home] h by blast
qed

text \<open>
  C9. Whenever \<^verbatim>\<open>get_extensions\<close> returns, and it returns one extension whenever \<open>CUDA_HOME\<close>
  is set, the source list of the extension is the result of the \<^verbatim>\<open>.cpp\<close> pattern followed
  by the result of the \<^verbatim>\<open>.cu\<close> pattern; every path of the first ends in \<^verbatim>\<open>.cpp\<close> and every
  path of the second in \<^verbatim>\<open>.cu\<close>, so every \<^verbatim>\<open>.cpp\<close> file stands before every \<^verbatim>\<open>.cu\<close> file.
\<close>

theorem get_extensions_cpp_before_cu:
  "\<exists>cpp cu.
      glob w ''flute/csrc/*.cpp'' = ([Glob ''flute/csrc/*.cpp''], Inr cpp) \<and>
      glob w ''flute/csrc/*.cu'' = ([Glob ''flute/csrc/*.cu''], Inr cu) \<and>
      list_all (\<lambda>x. endswith x ''.cpp'') cpp \<and>
      list_all (\<lambda>x. endswith x ''.cu'') cu \<and>
      (CUDA_HOME w \<noteq> None \<longrightarrow> (\<exists>ext. snd (get_extensions w) = Inr [ext])) \<and>
      (\<forall>exts ext. snd (get_extensions w) = Inr exts \<and> ext \<in> set exts \<longrightarrow>
         sources ext = cpp @ cu \<and>
         (\<forall>i j. i < length (sources ext) \<and> j < length (sources ext) \<and>
                endswith (sources ext ! i) ''.cpp'' \<and> endswith (sources ext ! j) ''.cu'' \<longrightarrow> i < j))"
proof -
  obtain cpp where g1: "glob w ''flute/csrc/*.cpp'' = ([Glob ''flute/csrc/*.cpp''], Inr cpp)"
    using glob_total by blast
  obtain cu where g2: "glob w ''flute/csrc/*.cu'' = ([Glob ''flute/csrc/*.cu''], Inr cu)"
    using glob_total by blast
  have c1: "\<forall>x\<in>set cpp. endswith x ''.cpp''"
    using glob_cpp_endswith[OF g1] by blast
  have c2: "\<forall>x\<in>set cu. endswith x ''.cu''"
    using glob_cu_endswith[OF g2] by blast
  have returns: "\<exists>ext. snd (get_extensions w) = Inr [ext]" if "CUDA_HOME w \<noteq> None"
    using that unfolding get_extensions_eq[OF g1 g2] by (cases "CUDA_HOME w") simp_all
  have order: "i < j"
    if s: "sources ext = cpp @ cu"
      and ij: "i < length (sources ext) \<and> j < length (sources ext) \<and>
        endswith (sources ext ! i) ''.cpp'' \<and> endswith (sources ext ! j) ''.cu''" for ext i j
  proof -
    have i: "i < length cpp"
    proof (rule ccontr)
      assume "\<not> i < length cpp"
      moreover have "i < length cpp + length cu" using ij s by simp
      ultimately have "(cpp @ cu) ! i = cu ! (i - length cpp)" "i - length cpp < length cu"
        by (simp_all add: nth_append)
      then have "endswith ((cpp @ cu) ! i) ''.cu''" using c2 by simp
      then show False using ij s cpp_not_cu by auto
    qed
    have "\<not> j < length cpp"
    proof
      assume "j < length cpp"
      then have "endswith ((cpp @ cu) ! j) ''.cpp''" using c1 by (simp add: nth_append)
      then show False using ij s cpp_not_cu by auto
    qed
    with i show ?thesis by simp
  qed
  have all: "sources ext = cpp @ cu \<and>
         (\<forall>i j. i < length (sources ext) \<and> j < length (sources ext) \<and>
                endswith (sources ext ! i) ''.cpp'' \<and> endswith (sources ext ! j) ''.cu'' \<longrightarrow> i < j)"
    if "snd (get_extensions w) = Inr exts \<and> ext \<in> set exts" for exts ext
  proof -
    from that have s: "sources ext = cpp @ cu"
      using get_extensions_sources[OF g1 g2] by blast
    with order[OF s] show ?thesis by blast
  qed
  show ?thesis
    using g1 g2 c1 c2 returns all by (auto simp: list_all_iff)
qed

theorem get_extensions_cpp_before_cu_witness:
  "\<exists>ext. snd (get_extensions (demo_world (Some ''/usr/local/cuda'') [] []
                                (Some [''a.cu'', ''b.cpp'', ''c.cpp'', ''d.cu'']) []))
           = Inr [ext]
       \<and> sources ext = [''flute/csrc/b.cpp'', ''flute/csrc/c.cpp'', ''flute/csrc/a.cu'', ''flute/csrc/d.cu'']
       \<and> endswith (sources ext ! 1) ''.cpp'' \<and> endswith (sources ext ! 2) ''.cu'' \<and> (1::nat) < 2"
proof -
  let ?W = "demo_world (Some ''/usr/local/cuda'') [] [] (Some [''a.cu'', ''b.cpp'', ''c.cpp'', ''d.cu'']) []"
  have home: "CUDA_HOME ?W \<noteq> None"
    by (simp add: demo_world_def)
  obtain cpp cu where
    g1: "glob ?W ''flute/csrc/*.cpp'' = ([Glob ''flute/csrc/*.cpp''], Inr cpp)" and
    g2: "glob ?W ''flute/csrc/*.cu'' = ([Glob ''flute/csrc/*.cu''], Inr cu)" and
    returns: "CUDA_HOME ?W \<noteq> None \<longrightarrow> (\<exists>ext. snd (get_extensions ?W) = Inr [ext])" and
    all: "\<forall>exts ext. snd (get_extensions ?W) = Inr exts \<and> ext \<in> set exts \<longrightarrow>
         sources ext = cpp @ cu \<and>
         (\<forall>i j. i < length (sources ext) \<and> j < length (sources ext) \<and>
                endswith (sources ext ! i) ''.cpp'' \<and> endswith (sources ext ! j) ''.cu'' \<longrightarrow> i < j)"
    using get_extensions_cpp_before_cu[of ?W] by blast
  from returns home obtain ext where e: "snd (get_extensions ?W) = Inr [ext]"
    by blast
  then have "snd (get_extensions ?W) = Inr [ext] \<and> ext \<in> set [ext]" by simp
  with all have s: "sources ext = cpp @ cu"
    and order: "\<forall>i j. i < length (sources ext) \<and> j < length (sources ext) \<and>
             endswith (sources ext ! i) ''.cpp'' \<and> endswith (sources ext ! j) ''.cu'' \<longrightarrow> i < j"
    by blast+
  have v1: "glob ?W ''flute/csrc/*.cpp'' = ([Glob ''flute/csrc/*.cpp''], Inr [''flute/csrc/b.cpp'', ''flute/csrc/c.cpp''])"
    by code_simp
  have v2: "glob ?W ''flute/csrc/*.cu'' = ([Glob ''flute/csrc/*.cu''], Inr [''flute/csrc/a.cu'', ''flute/csrc/d.cu''])"
    by code_simp
  have src: "sources ext = [''flute/csrc/b.cpp'', ''flute/csrc/c.cpp'', ''flute/csrc/a.cu'', ''flute/csrc/d.cu'']"
    using g1 g2 v1 v2 s by simp
  have e1: "endswith (sources ext ! 1) ''.cpp''" unfolding src by (simp add: endswith_def)
  have e2: "endswith (sources ext ! 2) ''.cu''" unfolding src by (simp add: endswith_def)
  have "(1::nat) < 2"
    using order e1 e2 src by auto
  with e src e1 e2 show ?thesis by blast
qed
section \<open>Properties of \<^verbatim>\<open>get_requirements\<close>\<close>

lemma eff_bind_Inr:
  "eff_bind m f = (t, Inr y) \<Longrightarrow>
     \<exists>t1 x t2. m = (t1, Inr x) \<and> f x = (t2, Inr y) \<and> t = t1 @ t2"
  by (auto simp: eff_bind_def split: prod.splits sum.splits)

lemma eff_bind_Pair_Inr:
  "eff_bind (t, Inr x) f = (case f x of (t', r) \<Rightarrow> (t @ t', r))"
  by (simp add: eff_bind_def)

lemma eff_bind_Pair_Inl: "eff_bind (t, Inl e) f = (t, Inl e)"
  by (simp add: eff_bind_def)

lemma resolve_lines_plain_prefix:
  "\<forall>l\<in>set pre. \<not> startswith l ''-r '' \<Longrightarrow>
     resolve_lines recurse (pre @ rest) acc = resolve_lines recurse rest (acc @ pre)"
  by (induction pre arbitrary: acc) simp_all

lemma resolve_lines_plain:
  "\<forall>l\<in>set ls. \<not> startswith l ''-r '' \<Longrightarrow>
     resolve_lines recurse ls acc = ([], Inr (acc @ ls))"
  using resolve_lines_plain_prefix[of ls recurse "[]" acc] by (simp add: ret_def)

lemma resolve_lines_directive:
  assumes "startswith line ''-r ''" "item (split_ws line) 1 = Some filename"
  shows "resolve_lines recurse (line # rest) acc =
           eff_bind (recurse filename) (\<lambda>included. resolve_lines recurse rest (acc @ included))"
  using assms by simp

lemma read_requirements_Suc:
  "read_requirements (Suc frames) w filename =
     (case read_text w (get_path w [filename]) of
        Inl e \<Rightarrow> ([OpenRead (get_path w [filename])], Inl e)
      | Inr contents \<Rightarrow>
          (case resolve_lines (\<lambda>f. read_requirements frames w f)
                  (split_sep newline (strip contents)) [] of
             (t, r) \<Rightarrow> (OpenRead (get_path w [filename]) # t, r)))"
  by (simp add: open_read_def eff_bind_def Let_def split: sum.splits prod.splits)

text \<open>A list that is returned with room for some calls is returned with room for more.\<close>

lemma resolve_lines_mono:
  assumes "\<And>f t rs. recurse f = (t, Inr rs) \<Longrightarrow> recurse' f = (t, Inr rs)"
  shows "resolve_lines recurse ls acc = (t, Inr rs) \<Longrightarrow> resolve_lines recurse' ls acc = (t, Inr rs)"
proof (induction ls arbitrary: acc t)
  case Nil
  then show ?case by simp
next
  case (Cons line ls)
  show ?case
  proof (cases "startswith line ''-r ''")
    case False
    then show ?thesis using Cons by simp
  next
    case True
    show ?thesis
    proof (cases "item (split_ws line) 1")
      case None
      then show ?thesis using True Cons.prems by (simp add: raise_def)
    next
      case (Some filename)
      note d = resolve_lines_directive[OF True Some]
      from Cons.prems have "eff_bind (recurse filename)
          (\<lambda>included. resolve_lines recurse ls (acc @ included)) = (t, Inr rs)"
        unfolding d .
      from eff_bind_Inr[OF this] obtain t1 included t2 where
        sub: "recurse filename = (t1, Inr included)"
        and inner: "resolve_lines recurse ls (acc @ included) = (t2, Inr rs)"
        and t: "t = t1 @ t2"
        by blast
      from sub have sub': "recurse' filename = (t1, Inr included)" by (rule assms)
      from Cons.IH[OF inner] show ?thesis
        unfolding d sub' eff_bind_Pair_Inr t by simp
    qed
  qed
qed

lemma read_requirements_mono_Suc:
  "read_requirements frames w f = (t, Inr rs) \<Longrightarrow> read_requirements (Suc frames) w f = (t, Inr rs)"
proof (induction frames arbitrary: f t rs)
  case 0
  then show ?case by (simp add: raise_def)
next
  case (Suc frames)
  have step: "resolve_lines (\<lambda>f. read_requirements frames w f) ls acc = (t', Inr rs') \<Longrightarrow>
              resolve_lines (\<lambda>f. read_requirements (Suc frames) w f) ls acc = (t', Inr rs')"
    for ls acc t' rs'
    by (rule resolve_lines_mono[where recurse="\<lambda>f. read_requirements frames w f"]) (rule Suc.IH)
  show ?case
  proof (cases "read_text w (get_path w [f])")
    case (Inl e)
    then show ?thesis using Suc.prems unfolding read_requirements_Suc[of frames]
      by simp
  next
    case (Inr contents)
    from Suc.prems obtain t' where
      inner: "resolve_lines (\<lambda>f. read_requirements frames w f)
                (split_sep newline (strip contents)) [] = (t', Inr rs)"
      and t: "t = OpenRead (get_path w [f]) # t'"
      unfolding read_requirements_Suc[of frames] Inr
      by (auto split: prod.splits)
    from step[OF inner] show ?thesis
      unfolding read_requirements_Suc[of "Suc frames"] Inr t
      by (simp del: read_requirements.simps)
  qed
qed

lemma read_requirements_mono:
  "frames \<le> frames' \<Longrightarrow> read_requirements frames w f = (t, Inr rs) \<Longrightarrow>
     read_requirements frames' w f = (t, Inr rs)"
proof (induction frames')
  case 0
  then show ?case by simp
next
  case (Suc frames')
  show ?case
  proof (cases "frames = Suc frames'")
    case True
    then show ?thesis using Suc.prems by simp
  next
    case False
    then have "frames \<le> frames'" using Suc.prems by simp
    from Suc.IH[OF this Suc.prems(2)] show ?thesis
      by (rule read_requirements_mono_Suc)
  qed
qed

lemma directive_other: "startswith ''-r other.txt'' ''-r ''" "item (split_ws ''-r other.txt'') 1 = Some ''other.txt''"
  by code_simp+

lemma directive_self:
  "startswith ''-r requirements.txt'' ''-r ''"
  "item (split_ws ''-r requirements.txt'') 1 = Some ''requirements.txt''"
  by code_simp+

text \<open>
  C4. When the lines of \<^verbatim>\<open>requirements.txt\<close> hold the directive \<^verbatim>\<open>-r other.txt\<close> among lines
  that are no directives, and \<^verbatim>\<open>other.txt\<close> resolves to the list \<open>others\<close> with room for
  some number of nested calls, then with room for one call more, or for any number
  beyond, \<^verbatim>\<open>get_requirements\<close> returns one flat list: the lines before the directive,
  \<open>others\<close>, and the lines after it, in this order.
\<close>

theorem get_requirements_include:
  assumes rd: "read_text w (get_path w [''requirements.txt'']) = Inr contents"
    and lines: "split_sep newline (strip contents) = before @ [''-r other.txt''] @ after"
    and plain: "\<forall>l\<in>set (before @ after). \<not> startswith l ''-r ''"
    and other: "read_requirements depth w ''other.txt'' = (t, Inr others)"
    and enough: "Suc depth \<le> recursion_frames w"
  shows "get_requirements w =
           (OpenRead (get_path w [''requirements.txt'']) # t, Inr (before @ others @ after))"
proof -
  let ?rec = "\<lambda>f. read_requirements depth w f"
  have b: "\<forall>l\<in>set before. \<not> startswith l ''-r ''" and a: "\<forall>l\<in>set after. \<not> startswith l ''-r ''"
    using plain by simp_all
  have "resolve_lines ?rec (before @ ''-r other.txt'' # after) [] =
        resolve_lines ?rec (''-r other.txt'' # after) ([] @ before)"
    using b by (rule resolve_lines_plain_prefix)
  also have "\<dots> = eff_bind (?rec ''other.txt'')
                     (\<lambda>included. resolve_lines ?rec after (([] @ before) @ included))"
    by (rule resolve_lines_directive[OF directive_other])
  also have "\<dots> = (t, Inr (before @ others @ after))"
    unfolding other eff_bind_Pair_Inr resolve_lines_plain[OF a] by simp
  finally have "read_requirements (Suc depth) w ''requirements.txt'' =
      (OpenRead (get_path w [''requirements.txt'']) # t, Inr (before @ others @ after))"
    unfolding read_requirements_Suc rd by (simp add: lines)
  from read_requirements_mono[OF enough this] show ?thesis
    unfolding get_requirements_def .
qed

theorem get_requirements_include_witness:
  "get_requirements
     (demo_world None []
        [(''requirements.txt'', ''torch'' @ [newline] @ ''-r other.txt'' @ [newline] @ ''numpy'' @ [newline]),
         (''other.txt'', ''einops'' @ [newline] @ ''packaging'')] None [])
     = ([OpenRead ''requirements.txt'', OpenRead ''other.txt''],
        Inr [''torch'', ''einops'', ''packaging'', ''numpy''])"
proof -
  let ?c = "''torch'' @ [newline] @ ''-r other.txt'' @ [newline] @ ''numpy'' @ [newline]"
  let ?W = "demo_world None []
        [(''requirements.txt'', ?c), (''other.txt'', ''einops'' @ [newline] @ ''packaging'')] None []"
  have p: "get_path ?W [''requirements.txt''] = ''requirements.txt''"
    by code_simp
  have rd: "read_text ?W (get_path ?W [''requirements.txt'']) = Inr ?c"
    unfolding p by (simp add: demo_world_def)
  have lines: "split_sep newline (strip ?c) = [''torch''] @ [''-r other.txt''] @ [''numpy'']"
    by code_simp
  have plain: "\<forall>l\<in>set ([''torch''] @ [''numpy'']). \<not> startswith l ''-r ''"
    by (simp add: startswith_def)
  have other: "read_requirements 1 ?W ''other.txt'' = ([OpenRead ''other.txt''], Inr [''einops'', ''packaging''])"
    by code_simp
  have enough: "Suc 1 \<le> recursion_frames ?W"
    by (simp add: demo_world_def)
  show ?thesis
    using get_requirements_include[OF rd lines plain other enough] unfolding p by simp
qed

lemma resolve_lines_recurse_raises:
  assumes b: "\<forall>l\<in>set before. \<not> startswith l ''-r ''"
    and d: "startswith line ''-r ''" "item (split_ws line) 1 = Some filename"
    and n: "recurse filename = (t, Inl e)"
  shows "resolve_lines recurse (before @ [line] @ after) acc = (t, Inl e)"
proof -
  have "resolve_lines recurse (before @ line # after) acc =
        resolve_lines recurse (line # after) (acc @ before)"
    using b by (rule resolve_lines_plain_prefix)
  also have "\<dots> = (t, Inl e)"
    unfolding resolve_lines_directive[OF d] n eff_bind_Pair_Inl ..
  finally show ?thesis by simp
qed

text \<open>
  A file that includes itself uses up every call there is room for, opening the file
  each time, and then raises \<^verbatim>\<open>RecursionError\<close>.
\<close>

lemma self_reference_raises:
  assumes rd: "read_text w (get_path w [''requirements.txt'']) = Inr contents"
    and lines: "split_sep newline (strip contents) = before @ [''-r requirements.txt''] @ after"
    and plain: "\<forall>l\<in>set before. \<not> startswith l ''-r ''"
  shows "read_requirements frames w ''requirements.txt'' =
           (replicate frames (OpenRead (get_path w [''requirements.txt''])), Inl RecursionError)"
proof (induction frames)
  case 0
  show ?case by (simp add: raise_def)
next
  case (Suc frames)
  have "resolve_lines (\<lambda>f. read_requirements frames w f)
          (before @ [''-r requirements.txt''] @ after) [] =
        (replicate frames (OpenRead (get_path w [''requirements.txt''])), Inl RecursionError)"
    using plain directive_self Suc.IH by (rule resolve_lines_recurse_raises)
  then show ?case
    unfolding read_requirements_Suc rd by (simp add: lines)
qed

lemma mutual_reference_raises:
  assumes rd: "read_text w (get_path w [''requirements.txt'']) = Inr contents"
    and lines: "split_sep newline (strip contents) = before @ [''-r other.txt''] @ after"
    and plain: "\<forall>l\<in>set before. \<not> startswith l ''-r ''"
    and rd': "read_text w (get_path w [''other.txt'']) = Inr contents'"
    and lines': "split_sep newline (strip contents') = before' @ [''-r requirements.txt''] @ after'"
    and plain': "\<forall>l\<in>set before'. \<not> startswith l ''-r ''"
  shows "(\<exists>t. read_requirements frames w ''requirements.txt'' = (t, Inl RecursionError) \<and>
              length t = frames) \<and>
         (\<exists>t. read_requirements frames w ''other.txt'' = (t, Inl RecursionError) \<and>
              length t = frames)"
proof (induction frames)
  case 0
  show ?case by (simp add: raise_def)
next
  case (Suc frames)
  from Suc.IH obtain t1 t2 where
    r1: "read_requirements frames w ''requirements.txt'' = (t1, Inl RecursionError)"
    and l1: "length t1 = frames"
    and r2: "read_requirements frames w ''other.txt'' = (t2, Inl RecursionError)"
    and l2: "length t2 = frames"
    by blast
  have "resolve_lines (\<lambda>f. read_requirements frames w f)
          (before @ [''-r other.txt''] @ after) [] = (t2, Inl RecursionError)"
    using plain directive_other r2 by (rule resolve_lines_recurse_raises)
  then have a: "read_requirements (Suc frames) w ''requirements.txt'' =
      (OpenRead (get_path w [''requirements.txt'']) # t2, Inl RecursionError)"
    unfolding read_requirements_Suc rd by (simp add: lines)
  have "resolve_lines (\<lambda>f. read_requirements frames w f)
          (before' @ [''-r requirements.txt''] @ after') [] = (t1, Inl RecursionError)"
    using plain' directive_self r1 by (rule resolve_lines_recurse_raises)
  then have b: "read_requirements (Suc frames) w ''other.txt'' =
      (OpenRead (get_path w [''other.txt'']) # t1, Inl RecursionError)"
    unfolding read_requirements_Suc rd' by (simp add: lines')
  show ?case
    unfolding a b using l1 l2 by simp
qed

text \<open>
  C5, as amended. Nothing in the script detects a cycle: when \<^verbatim>\<open>requirements.txt\<close> includes
  itself, or includes \<^verbatim>\<open>other.txt\<close> which includes \<^verbatim>\<open>requirements.txt\<close>, \<^verbatim>\<open>get_requirements\<close>
  returns no list, whatever the room for nested calls: it opens a file in every call
  there is room for and then raises \<^verbatim>\<open>RecursionError\<close>. Nothing removes duplicates
  either: a file without directives is returned line by line as it is.
\<close>

theorem requirements_cycle_exhausts_recursion:
  "(read_text w (get_path w [''requirements.txt'']) = Inr contents \<and>
    split_sep newline (strip contents) = before @ [''-r requirements.txt''] @ after \<and>
    (\<forall>l\<in>set before. \<not> startswith l ''-r '') \<longrightarrow>
      get_requirements w =
        (replicate (recursion_frames w) (OpenRead (get_path w [''requirements.txt''])),
         Inl RecursionError))
   \<and> (read_text w (get_path w [''requirements.txt'']) = Inr contents \<and>
      split_sep newline (strip contents) = before @ [''-r other.txt''] @ after \<and>
      (\<forall>l\<in>set before. \<not> startswith l ''-r '') \<and>
      read_text w (get_path w [''other.txt'']) = Inr contents' \<and>
      split_sep newline (strip contents') = before' @ [''-r requirements.txt''] @ after' \<and>
      (\<forall>l\<in>set before'. \<not> startswith l ''-r '') \<longrightarrow>
      snd (get_requirements w) = Inl RecursionError \<and>
      length (fst (get_requirements w)) = recursion_frames w)
   \<and> (read_text w (get_path w [''requirements.txt'']) = Inr contents \<and>
      (\<forall>l\<in>set (split_sep newline (strip contents)). \<not> startswith l ''-r '') \<and>
      0 < recursion_frames w \<longrightarrow>
      get_requirements w =
        ([OpenRead (get_path w [''requirements.txt''])], Inr (split_sep newline (strip contents))))"
proof (intro conjI impI)
  assume "read_text w (get_path w [''requirements.txt'']) = Inr contents \<and>
    split_sep newline (strip contents) = before @ [''-r requirements.txt''] @ after \<and>
    (\<forall>l\<in>set before. \<not> startswith l ''-r '')"
  then show "get_requirements w =
        (replicate (recursion_frames w) (OpenRead (get_path w [''requirements.txt''])),
         Inl RecursionError)"
    unfolding get_requirements_def using self_reference_raises by blast
next
  assume h: "read_text w (get_path w [''requirements.txt'']) = Inr contents \<and>
      split_sep newline (strip contents) = before @ [''-r other.txt''] @ after \<and>
      (\<forall>l\<in>set before. \<not> startswith l ''-r '') \<and>
      read_text w (get_path w [''other.txt'']) = Inr contents' \<and>
      split_sep newline (strip contents') = before' @ [''-r requirements.txt''] @ after' \<and>
      (\<forall>l\<in>set before'. \<not> startswith l ''-r '')"
  then obtain t where
    "read_requirements (recursion_frames w) w ''requirements.txt'' = (t, Inl RecursionError)"
    "length t = recursion_frames w"
    using mutual_reference_raises[of w contents before after contents' before' after' "recursion_frames w"]
    by blast
  then show "snd (get_requirements w) = Inl RecursionError"
    and "length (fst (get_requirements w)) = recursion_frames w"
    unfolding get_requirements_def by simp_all
next
  assume h: "read_text w (get_path w [''requirements.txt'']) = Inr contents \<and>
      (\<forall>l\<in>set (split_sep newline (strip contents)). \<not> startswith l ''-r '') \<and>
      0 < recursion_frames w"
  then obtain n where n: "recursion_frames w = Suc n"
    by (cases "recursion_frames w") simp_all
  from h have "resolve_lines (\<lambda>f. read_requirements n w f) (split_sep newline (strip contents)) [] =
      ([], Inr ([] @ split_sep newline (strip contents)))"
    by (intro resolve_lines_plain) simp
  then show "get_requirements w =
        ([OpenRead (get_path w [''requirements.txt''])], Inr (split_sep newline (strip contents)))"
    unfolding get_requirements_def n read_requirements_Suc using h by simp
qed

theorem requirements_cycle_exhausts_recursion_witness:
  "get_requirements
       (demo_world None [] [(''requirements.txt'', ''torch'' @ [newline] @ ''-r requirements.txt'')] None [])
      = (replicate 990 (OpenRead ''requirements.txt''), Inl RecursionError)
   \<and> snd (get_requirements
       (demo_world None []
          [(''requirements.txt'', ''-r other.txt''), (''other.txt'', ''-r requirements.txt'')] None []))
      = Inl RecursionError
   \<and> get_requirements
       (demo_world None [] [(''requirements.txt'', ''numpy'' @ [newline] @ ''numpy'')] None [])
      = ([OpenRead ''requirements.txt''], Inr [''numpy'', ''numpy''])"
proof (intro conjI)
  let ?c = "''torch'' @ [newline] @ ''-r requirements.txt''"
  let ?W = "demo_world None [] [(''requirements.txt'', ?c)] None []"
  have p: "get_path ?W [''requirements.txt''] = ''requirements.txt''"
    by code_simp
  have f: "recursion_frames ?W = 990"
    by (simp add: demo_world_def)
  have h: "read_text ?W (get_path ?W [''requirements.txt'']) = Inr ?c \<and>
    split_sep newline (strip ?c) = [''torch''] @ [''-r requirements.txt''] @ [] \<and>
    (\<forall>l\<in>set [''torch'']. \<not> startswith l ''-r '')"
  proof (intro conjI)
    show "read_text ?W (get_path ?W [''requirements.txt'']) = Inr ?c"
      unfolding p by (simp add: demo_world_def)
    show "split_sep newline (strip ?c) = [''torch''] @ [''-r requirements.txt''] @ []"
      by code_simp
    show "\<forall>l\<in>set [''torch'']. \<not> startswith l ''-r ''"
      by (simp add: startswith_def)
  qed
  have "get_requirements ?W =
        (replicate (recursion_frames ?W) (OpenRead (get_path ?W [''requirements.txt''])),
         Inl RecursionError)"
    using requirements_cycle_exhausts_recursion[of ?W ?c "[''torch'']" "[]"] h by blast
  then show "get_requirements ?W = (replicate 990 (OpenRead ''requirements.txt''), Inl RecursionError)"
    unfolding p f .
next
  let ?W = "demo_world None []
          [(''requirements.txt'', ''-r other.txt''), (''other.txt'', ''-r requirements.txt'')] None []"
  have p: "get_path ?W [''requirements.txt''] = ''requirements.txt''"
    and p': "get_path ?W [''other.txt''] = ''other.txt''"
    by code_simp+
  have h: "read_text ?W (get_path ?W [''requirements.txt'']) = Inr ''-r other.txt'' \<and>
      split_sep newline (strip ''-r other.txt'') = [] @ [''-r other.txt''] @ [] \<and>
      (\<forall>l\<in>set ([]::string list). \<not> startswith l ''-r '') \<and>
      read_text ?W (get_path ?W [''other.txt'']) = Inr ''-r requirements.txt'' \<and>
      split_sep newline (strip ''-r requirements.txt'') = [] @ [''-r requirements.txt''] @ [] \<and>
      (\<forall>l\<in>set ([]::string list). \<not> startswith l ''-r '')"
  proof (intro conjI)
    show "read_text ?W (get_path ?W [''requirements.txt'']) = Inr ''-r other.txt''"
      unfolding p by (simp add: demo_world_def)
    show "read_text ?W (get_path ?W [''other.txt'']) = Inr ''-r requirements.txt''"
      unfolding p' by (simp add: demo_world_def)
    show "split_sep newline (strip ''-r other.txt'') = [] @ [''-r other.txt''] @ []"
      by code_simp
    show "split_sep newline (strip ''-r requirements.txt'') = [] @ [''-r requirements.txt''] @ []"
      by code_simp
  qed simp_all
  show "snd (get_requirements ?W) = Inl RecursionError"
    using requirements_cycle_exhausts_recursion[where w="?W" and contents="''-r other.txt''"
        and before="[]" and after="[]" and contents'="''-r requirements.txt''"
        and before'="[]" and after'="[]"] h
    by blast
next
  let ?c = "''numpy'' @ [newline] @ ''numpy''"
  let ?W = "demo_world None [] [(''requirements.txt'', ?c)] None []"
  have p: "get_path ?W [''requirements.txt''] = ''requirements.txt''"
    by code_simp
  have l: "split_sep newline (strip ?c) = [''numpy'', ''numpy'']"
    by code_simp
  have h: "read_text ?W (get_path ?W [''requirements.txt'']) = Inr ?c \<and>
      (\<forall>l\<in>set (split_sep newline (strip ?c)). \<not> startswith l ''-r '') \<and>
      0 < recursion_frames ?W"
    unfolding p l by (simp add: demo_world_def startswith_def)
  have "get_requirements ?W =
        ([OpenRead (get_path ?W [''requirements.txt''])], Inr (split_sep newline (strip ?c)))"
    using requirements_cycle_exhausts_recursion[of ?W ?c] h by blast
  then show "get_requirements ?W = ([OpenRead ''requirements.txt''], Inr [''numpy'', ''numpy''])"
    unfolding p l by simp
qed

text \<open>
  C5 as stated fails: on a file that includes itself the resolution does end. With the
  room for 990 nested calls it opens the file 990 times and raises \<^verbatim>\<open>RecursionError\<close>.
\<close>

theorem requirements_cycle_terminates_counterexample:
  "get_requirements
       (demo_world None [] [(''requirements.txt'', ''-r requirements.txt'')] None [])
      = (replicate 990 (OpenRead ''requirements.txt''), Inl RecursionError)"
proof -
  let ?c = "''-r requirements.txt''"
  let ?W = "demo_world None [] [(''requirements.txt'', ?c)] None []"
  have p: "get_path ?W [''requirements.txt''] = ''requirements.txt''"
    by code_simp
  have f: "recursion_frames ?W = 990"
    by (simp add: demo_world_def)
  have rd: "read_text ?W (get_path ?W [''requirements.txt'']) = Inr ?c"
    unfolding p by (simp add: demo_world_def)
  have lines: "split_sep newline (strip ?c) = [] @ [''-r requirements.txt''] @ []"
    by code_simp
  have plain: "\<forall>l\<in>set ([]::string list). \<not> startswith l ''-r ''"
    by simp
  show ?thesis
    unfolding get_requirements_def f
    using self_reference_raises[OF rd lines plain, of 990] unfolding p .
qed

lemma strip_interior:
  assumes a: "\<exists>c\<in>set a. \<not> isspace c" and b: "\<exists>c\<in>set b. \<not> isspace c"
  shows "strip (a @ m @ b) = dropWhile isspace a @ m @ rev (dropWhile isspace (rev b))"
proof -
  from a obtain x where x: "x \<in> set a" "\<not> isspace x" by blast
  from b obtain y where y: "y \<in> set (rev b)" "\<not> isspace y" by auto
  have "dropWhile isspace (a @ m @ b) = dropWhile isspace a @ m @ b"
    using x by (rule dropWhile_append1)
  moreover have "dropWhile isspace (rev b @ rev m @ rev (dropWhile isspace a)) =
                 dropWhile isspace (rev b) @ rev m @ rev (dropWhile isspace a)"
    using y by (rule dropWhile_append1)
  ultimately show ?thesis by (simp add: strip_def)
qed

lemma split_sep_blank_line:
  "split_sep newline (x @ [newline, newline] @ y) = split_sep newline x @ [] # split_sep newline y"
proof -
  have "split_sep newline (x @ newline # (newline # y)) =
        split_sep newline x @ split_sep newline (newline # y)"
    unfolding split_sep_def by (rule split_where_append_sep) simp
  then show ?thesis by (simp add: split_sep_Cons_sep)
qed

lemma resolve_lines_keeps_acc:
  "resolve_lines recurse ls acc = (t, Inr rs) \<Longrightarrow> set acc \<subseteq> set rs"
proof (induction ls arbitrary: acc t)
  case Nil
  then show ?case by (simp add: ret_def)
next
  case (Cons line ls)
  show ?case
  proof (cases "startswith line ''-r ''")
    case False
    then have "resolve_lines recurse ls (acc @ [line]) = (t, Inr rs)"
      using Cons.prems by simp
    from Cons.IH[OF this] show ?thesis by simp
  next
    case True
    show ?thesis
    proof (cases "item (split_ws line) 1")
      case None
      then show ?thesis using True Cons.prems by (simp add: raise_def)
    next
      case (Some filename)
      from Cons.prems have "eff_bind (recurse filename)
              (\<lambda>included. resolve_lines recurse ls (acc @ included)) = (t, Inr rs)"
        unfolding resolve_lines_directive[OF True Some] .
      from eff_bind_Inr[OF this] obtain included t2 where
        "resolve_lines recurse ls (acc @ included) = (t2, Inr rs)"
        by blast
      from Cons.IH[OF this] show ?thesis by simp
    qed
  qed
qed

lemma resolve_lines_keeps_plain:
  assumes l: "\<not> startswith l ''-r ''"
  shows "resolve_lines recurse (xs @ l # ys) acc = (t, Inr rs) \<Longrightarrow> l \<in> set rs"
proof (induction xs arbitrary: acc t)
  case Nil
  then have "resolve_lines recurse ys (acc @ [l]) = (t, Inr rs)"
    using l by simp
  from resolve_lines_keeps_acc[OF this] show ?case by simp
next
  case (Cons line xs)
  show ?case
  proof (cases "startswith line ''-r ''")
    case False
    then have "resolve_lines recurse (xs @ l # ys) (acc @ [line]) = (t, Inr rs)"
      using Cons.prems by simp
    then show ?thesis by (rule Cons.IH)
  next
    case True
    show ?thesis
    proof (cases "item (split_ws line) 1")
      case None
      then show ?thesis using True Cons.prems by (simp add: raise_def)
    next
      case (Some filename)
      have e: "resolve_lines recurse (line # (xs @ l # ys)) acc =
            eff_bind (recurse filename)
              (\<lambda>included. resolve_lines recurse (xs @ l # ys) (acc @ included))"
        by (rule resolve_lines_directive[OF True Some])
      from Cons.prems have "eff_bind (recurse filename)
              (\<lambda>included. resolve_lines recurse (xs @ l # ys) (acc @ included)) = (t, Inr rs)"
        unfolding append_Cons e .
      from eff_bind_Inr[OF this] obtain included t2 where
        "resolve_lines recurse (xs @ l # ys) (acc @ included) = (t2, Inr rs)"
        by blast
      then show ?thesis by (rule Cons.IH)
    qed
  qed
qed

text \<open>
  C10. Only the whitespace at both ends of the whole file is stripped before the split at
  newlines: for a file with an empty line between two parts that each hold a character
  that is no whitespace, the lines are those of the first part, an empty line, and those
  of the second part, and the empty string is an entry of every list that
  \<^verbatim>\<open>get_requirements\<close> returns.
\<close>

theorem get_requirements_keeps_blank_line:
  assumes rd: "read_text w (get_path w [''requirements.txt'']) = Inr (a @ [newline, newline] @ b)"
    and a: "\<exists>c\<in>set a. \<not> isspace c" and b: "\<exists>c\<in>set b. \<not> isspace c"
    and returns: "get_requirements w = (t, Inr reqs)"
  shows "split_sep newline (strip (a @ [newline, newline] @ b)) =
           split_sep newline (dropWhile isspace a) @ [] #
           split_sep newline (rev (dropWhile isspace (rev b)))
       \<and> [] \<in> set reqs"
proof
  show lines: "split_sep newline (strip (a @ [newline, newline] @ b)) =
           split_sep newline (dropWhile isspace a) @ [] #
           split_sep newline (rev (dropWhile isspace (rev b)))"
    unfolding strip_interior[OF a b] by (rule split_sep_blank_line)
  from returns obtain d where d: "recursion_frames w = Suc d"
    by (cases "recursion_frames w") (simp_all add: get_requirements_def raise_def)
  from returns obtain t' where
    "resolve_lines (\<lambda>f. read_requirements d w f)
       (split_sep newline (strip (a @ [newline, newline] @ b))) [] = (t', Inr reqs)"
    unfolding get_requirements_def d read_requirements_Suc rd
    by (auto split: prod.splits)
  then have "resolve_lines (\<lambda>f. read_requirements d w f)
       (split_sep newline (dropWhile isspace a) @ [] #
           split_sep newline (rev (dropWhile isspace (rev b)))) [] = (t', Inr reqs)"
    unfolding lines .
  moreover have "\<not> startswith [] ''-r ''"
    by (simp add: startswith_def)
  ultimately show "[] \<in> set reqs"
    using resolve_lines_keeps_plain by blast
qed

theorem get_requirements_keeps_blank_line_witness:
  "get_requirements
     (demo_world None []
        [(''requirements.txt'', [newline] @ ''torch'' @ [newline, newline] @ ''numpy'' @ [newline])] None [])
     = ([OpenRead ''requirements.txt''], Inr [''torch'', [], ''numpy''])
   \<and> [] \<in> set [''torch'', [], ''numpy'']"
proof -
  let ?a = "[newline] @ ''torch''"
  let ?b = "''numpy'' @ [newline]"
  let ?W = "demo_world None [] [(''requirements.txt'', ?a @ [newline, newline] @ ?b)] None []"
  have p: "get_path ?W [''requirements.txt''] = ''requirements.txt''"
    by code_simp
  have rd: "read_text ?W (get_path ?W [''requirements.txt'']) = Inr (?a @ [newline, newline] @ ?b)"
    unfolding p by (simp add: demo_world_def)
  have a: "\<exists>c\<in>set ?a. \<not> isspace c"
    by (rule bexI[of _ "CHR ''t''"]) (simp_all add: isspace_def)
  have b: "\<exists>c\<in>set ?b. \<not> isspace c"
    by (rule bexI[of _ "CHR ''n''"]) (simp_all add: isspace_def)
  have r: "get_requirements ?W = ([OpenRead ''requirements.txt''], Inr [''torch'', [], ''numpy''])"
    by code_simp
  from get_requirements_keeps_blank_line[OF rd a b r]
  have "[] \<in> set [''torch'', [], ''numpy'']" by (rule conjunct2)
  with r show ?thesis by simp
qed

end
